theory Spec2Isabelle
  imports Main "HOL-Library.Word" "HOL-Library.Sublist"
begin

section \<open>JavaScript strings and the built-ins the parser calls\<close>

text \<open>
  A JavaScript string is a sequence of UTF-16 code units, so a string is a list of
  16-bit words and \<open>length\<close> is the \<open>.length\<close> of the source. \<open>js\<close> writes an ASCII
  literal; the zero-width space of \<open>cleanContent\<close> is the code unit \<open>0x200B\<close>.
\<close>

type_synonym jschar = "16 word"
type_synonym jsstring = "jschar list"

definition js :: "string \<Rightarrow> jsstring" where
  "js s = map of_char s"

definition ZWSP :: jschar where
  "ZWSP = 0x200B"

definition is_digit :: "jschar \<Rightarrow> bool" where
  \<comment> \<open>the character class \<open>[0-9]\<close>\<close>
  "is_digit c = (0x30 \<le> c \<and> c \<le> 0x39)"

text \<open>
  Indices are the integers \<open>ToIntegerOrInfinity\<close> yields. \<open>slice\<close> and \<open>splice\<close> read a
  negative index relative to the end and clamp it into \<open>0..len\<close>.
\<close>

definition relative_index :: "int \<Rightarrow> nat \<Rightarrow> nat" where
  "relative_index i len = (if i < 0 then nat (max (int len + i) 0) else min (nat i) len)"

definition js_slice :: "'a list \<Rightarrow> int \<Rightarrow> int \<Rightarrow> 'a list" where
  \<comment> \<open>\<open>xs.slice(start, end)\<close>, for arrays and for strings\<close>
  "js_slice xs start fin =
     (let len = length xs;
          k = relative_index start len;
          final = relative_index fin len
      in take (final - k) (drop k xs))"

definition js_splice :: "'a list \<Rightarrow> int \<Rightarrow> int option \<Rightarrow> 'a list \<times> 'a list" where
  \<comment> \<open>\<open>xs.splice(start)\<close> (no count) and \<open>xs.splice(start, count)\<close>: the removed
      elements, which the call returns, and the array as it is left\<close>
  "js_splice xs start deleteCount =
     (let len = length xs;
          k = relative_index start len;
          d = (case deleteCount of
                 None \<Rightarrow> len - k
               | Some c \<Rightarrow> min (nat (max c 0)) (len - k))
      in (take d (drop k xs), take k xs @ drop (k + d) xs))"

definition js_shift :: "'a list \<Rightarrow> 'a option \<times> 'a list" where
  \<comment> \<open>\<open>xs.shift()\<close>: \<open>None\<close> is the \<open>undefined\<close> an empty array gives\<close>
  "js_shift xs = (case xs of [] \<Rightarrow> (None, []) | x # rest \<Rightarrow> (Some x, rest))"

fun join_loop :: "jsstring \<Rightarrow> jsstring \<Rightarrow> nat \<Rightarrow> jsstring list \<Rightarrow> jsstring" where
  "join_loop sep R k [] = R"
| "join_loop sep R k (x # xs) = join_loop sep ((if 0 < k then R @ sep else R) @ x) (Suc k) xs"

definition js_join :: "jsstring \<Rightarrow> jsstring list \<Rightarrow> jsstring" where
  \<comment> \<open>\<open>xs.join(sep)\<close>: the loop of Array.prototype.join, the separator added in front of
      every element but the first\<close>
  "js_join sep xs = join_loop sep [] 0 xs"

fun index_of :: "jsstring \<Rightarrow> jsstring \<Rightarrow> nat option" where
  \<comment> \<open>the position of the first occurrence of \<open>pat\<close> in the string (StringIndexOf from 0)\<close>
  "index_of pat [] = (if pat = [] then Some 0 else None)"
| "index_of pat (c # cs) =
     (if prefix pat (c # cs) then Some 0 else map_option Suc (index_of pat cs))"

fun get_substitution :: "jsstring \<Rightarrow> jsstring \<Rightarrow> jsstring \<Rightarrow> jsstring \<Rightarrow> jsstring" where
  \<comment> \<open>GetSubstitution for a string pattern (no captures): in the replacement text
      \<open>$$\<close> is a dollar, \<open>$&\<close> the matched text, \<open>$`\<close> the text preceding the match and
      \<open>$'\<close> the text following it; any other dollar stands for itself\<close>
  "get_substitution preceding matched following [] = []"
| "get_substitution preceding matched following [c] = [c]"
| "get_substitution preceding matched following (c # d # r) =
     (if c = 0x24 then
        (if d = 0x24 then 0x24 # get_substitution preceding matched following r
         else if d = 0x26 then matched @ get_substitution preceding matched following r
         else if d = 0x60 then preceding @ get_substitution preceding matched following r
         else if d = 0x27 then following @ get_substitution preceding matched following r
         else c # get_substitution preceding matched following (d # r))
      else c # get_substitution preceding matched following (d # r))"

definition js_replace :: "jsstring \<Rightarrow> jsstring \<Rightarrow> jsstring \<Rightarrow> jsstring" where
  \<comment> \<open>\<open>s.replace(pat, replacement)\<close> with a string pattern: the first occurrence only\<close>
  "js_replace s pat replacement =
     (case index_of pat s of
        None \<Rightarrow> s
      | Some pos \<Rightarrow>
          (let preceding = take pos s;
               following = drop (pos + length pat) s
           in preceding @ get_substitution preceding pat following replacement @ following))"

section \<open>The four regular expressions\<close>

text \<open>
  \<open>[0-9]{15,21}\<close> is greedy: at the start of \<open>s\<close> it first takes 21 digits when there
  are that many, and gives them back one at a time, down to 15, while what follows it
  in the pattern fails. \<open>digit_counts\<close> lists the counts in the order they are tried.
\<close>

definition digit_counts :: "jsstring \<Rightarrow> nat list" where
  "digit_counts s = filter (\<lambda>n. n \<le> length (takeWhile is_digit s)) (rev [15..<22])"

definition idMatcher_exec :: "jsstring \<Rightarrow> (jsstring \<times> jsstring) option" where
  \<comment> \<open>\<open>/^([0-9]{15,21})$/.exec(s)\<close>: the whole match and the capture\<close>
  "idMatcher_exec s =
     (case find (\<lambda>n. n = length s) (digit_counts s) of
        None \<Rightarrow> None
      | Some n \<Rightarrow> Some (take n s, take n s))"

definition match_lit_id_gt :: "jsstring \<Rightarrow> jsstring \<Rightarrow> (jsstring \<times> jsstring) option" where
  \<comment> \<open>the pattern \<open>lit([0-9]{15,21})>\<close> matched at the start of \<open>s\<close>\<close>
  "match_lit_id_gt lit s =
     (if prefix lit s then
        (let r = drop (length lit) s in
         case find (\<lambda>n. prefix (js ''>'') (drop n r)) (digit_counts r) of
           None \<Rightarrow> None
         | Some n \<Rightarrow> Some (lit @ take n r @ js ''>'', take n r))
      else None)"

definition userMention_at :: "jsstring \<Rightarrow> (jsstring \<times> jsstring) option" where
  \<comment> \<open>\<open><@!?([0-9]{15,21})>\<close> at the start of \<open>s\<close>: the optional \<open>!\<close> is tried
      first, then its absence\<close>
  "userMention_at s =
     (case match_lit_id_gt (js ''<@!'') s of
        Some m \<Rightarrow> Some m
      | None \<Rightarrow> match_lit_id_gt (js ''<@'') s)"

definition channelMention_at :: "jsstring \<Rightarrow> (jsstring \<times> jsstring) option" where
  "channelMention_at s = match_lit_id_gt (js ''<#'') s"

definition roleMention_at :: "jsstring \<Rightarrow> (jsstring \<times> jsstring) option" where
  "roleMention_at s = match_lit_id_gt (js ''<@&'') s"

fun regex_exec :: "(jsstring \<Rightarrow> 'a option) \<Rightarrow> jsstring \<Rightarrow> 'a option" where
  \<comment> \<open>\<open>exec\<close> of a pattern with no anchor and no flag: every start position, left to
      right, the first match wins\<close>
  "regex_exec at [] = at []"
| "regex_exec at (c # cs) =
     (case at (c # cs) of Some m \<Rightarrow> Some m | None \<Rightarrow> regex_exec at cs)"

definition userMentionMatcher_exec :: "jsstring \<Rightarrow> (jsstring \<times> jsstring) option" where
  "userMentionMatcher_exec = regex_exec userMention_at"

definition channelMentionMatcher_exec :: "jsstring \<Rightarrow> (jsstring \<times> jsstring) option" where
  "channelMentionMatcher_exec = regex_exec channelMention_at"

definition roleMentionMatcher_exec :: "jsstring \<Rightarrow> (jsstring \<times> jsstring) option" where
  "roleMentionMatcher_exec = regex_exec roleMention_at"

definition or_else :: "'a option \<Rightarrow> 'a option \<Rightarrow> 'a option" where
  \<comment> \<open>\<open>a || b\<close> on two match results (\<open>null\<close> is the only falsy one)\<close>
  "or_else a b = (case a of Some m \<Rightarrow> Some m | None \<Rightarrow> b)"

section \<open>The directories the parser queries\<close>

text \<open>
  The chat client's library is not part of the repository; the parser only calls its
  directories. They are taken as the specification describes them: keyed collections
  that keep insertion order, with a lookup by ID and a linear search by predicate, both
  absent (\<open>None\<close>) on a miss, and the client's lookup of a channel by ID over all guilds,
  a field of the client here.
\<close>

record user =
  user_id :: jsstring
  username :: jsstring
  discriminator :: jsstring

record member =
  member_id :: jsstring
  nick :: "jsstring option"
  member_username :: jsstring

record channel =
  channel_id :: jsstring
  channel_name :: jsstring

record role =
  role_id :: jsstring
  role_name :: jsstring

type_synonym 'a collection = "(jsstring \<times> 'a) list"

definition coll_get :: "'a collection \<Rightarrow> jsstring \<Rightarrow> 'a option" where
  \<comment> \<open>Modelled from the spec: \<open>get(id)\<close> of a collection of the client's library, the
      lookup by ID, absent on a miss\<close>
  "coll_get c k = map_of c k"

definition coll_find :: "'a collection \<Rightarrow> ('a \<Rightarrow> bool) \<Rightarrow> 'a option" where
  \<comment> \<open>Modelled from the spec: \<open>find(predicate)\<close> of a collection of the client's
      library, the first entry in order that the predicate holds of, absent on a miss\<close>
  "coll_find c pred = find pred (map snd c)"

record guild =
  channels :: "channel collection"
  roles :: "role collection"
  members :: "member collection"

record client =
  users :: "user collection"
  getChannel :: "jsstring \<Rightarrow> channel option"

record message =
  channel_guild :: "guild option"
  msg_client :: client

section \<open>ArgParser\<close>

record ArgParser =
  msg :: message
  args :: "jsstring list"
  bot' :: client

definition new_ArgParser :: "message \<Rightarrow> jsstring list \<Rightarrow> ArgParser" where
  "new_ArgParser m a = \<lparr>msg = m, args = a, bot' = msg_client m\<rparr>"

datatype js_error = TypeError

definition consume :: "bool \<Rightarrow> ArgParser \<Rightarrow> jsstring option \<times> ArgParser" where
  \<comment> \<open>\<open>consumeRest ? this.args.splice(0).join(' ') : this.args.shift()\<close>\<close>
  "consume consumeRest p =
     (if consumeRest then
        (case js_splice (args p) 0 None of
           (removed, remaining) \<Rightarrow> (Some (js_join (js '' '') removed), p\<lparr>args := remaining\<rparr>))
      else
        (case js_shift (args p) of
           (x, remaining) \<Rightarrow> (x, p\<lparr>args := remaining\<rparr>)))"

definition falsy :: "jsstring option \<Rightarrow> bool" where
  \<comment> \<open>\<open>!args\<close>: \<open>undefined\<close> and the empty string\<close>
  "falsy a = (case a of None \<Rightarrow> True | Some s \<Rightarrow> s = [])"

definition resolveUser :: "bool \<Rightarrow> ArgParser \<Rightarrow> user option \<times> ArgParser" where
  "resolveUser consumeRest p =
     (case consume consumeRest p of
        (a, p') \<Rightarrow>
          if falsy a then (None, p')
          else
            (let s = the a in
             case or_else (idMatcher_exec s) (userMentionMatcher_exec s) of
               Some idMatch \<Rightarrow> (coll_get (users (bot' p')) (snd idMatch), p')
             | None \<Rightarrow>
                 if 5 < length s \<and> js_slice s (- 5) (- 4) = js ''#'' then
                   (coll_find (users (bot' p'))
                      (\<lambda>u. username u @ js ''#'' @ discriminator u = s), p')
                 else
                   (coll_find (users (bot' p')) (\<lambda>u. username u = s), p')))"

definition resolveChannel :: "bool \<Rightarrow> ArgParser \<Rightarrow> channel option \<times> ArgParser" where
  "resolveChannel consumeRest p =
     (case consume consumeRest p of
        (a, p') \<Rightarrow>
          if falsy a then (None, p')
          else
            (let s = the a in
             case or_else (idMatcher_exec s) (channelMentionMatcher_exec s) of
               Some idMatch \<Rightarrow> (getChannel (bot' p') (snd idMatch), p')
             | None \<Rightarrow>
                 (case channel_guild (msg p') of
                    None \<Rightarrow> (None, p')
                  | Some g \<Rightarrow> (coll_find (channels g) (\<lambda>c. channel_name c = s), p'))))"

definition resolveRole :: "bool \<Rightarrow> ArgParser \<Rightarrow> role option \<times> ArgParser" where
  "resolveRole consumeRest p =
     (case consume consumeRest p of
        (a, p') \<Rightarrow>
          (case channel_guild (msg p') of
             None \<Rightarrow> (None, p')
           | Some g \<Rightarrow>
               if falsy a then (None, p')
               else
                 (let s = the a in
                  case or_else (idMatcher_exec s) (roleMentionMatcher_exec s) of
                    Some idMatch \<Rightarrow> (coll_get (roles g) (snd idMatch), p')
                  | None \<Rightarrow> (coll_find (roles g) (\<lambda>r. role_name r = s), p'))))"

definition nextArgument :: "bool \<Rightarrow> ArgParser \<Rightarrow> jsstring option \<times> ArgParser" where
  "nextArgument consumeRest p = consume consumeRest p"

text \<open>
  The three \<open>while\<close> loops of \<open>cleanContent\<close> have one shape: while the pattern
  matches, compute the replacement from the captured ID and replace the first occurrence
  of the matched text. A loop that never ends is the value \<open>None\<close>; a loop body that
  throws ends the loop with \<open>Inl\<close> of the error.
\<close>

partial_function (option) mention_loop ::
  "(jsstring \<Rightarrow> (jsstring \<times> jsstring) option) \<Rightarrow> (jsstring \<Rightarrow> js_error + jsstring) \<Rightarrow>
     jsstring \<Rightarrow> (js_error + jsstring) option"
where
  "mention_loop exec formatted a =
     (case exec a of
        None \<Rightarrow> Some (Inr a)
      | Some m \<Rightarrow>
          (case formatted (snd m) of
             Inl e \<Rightarrow> Some (Inl e)
           | Inr r \<Rightarrow> mention_loop exec formatted (js_replace a (fst m) r)))"

declare mention_loop.simps [code]

definition nick_or_username :: "member \<Rightarrow> jsstring" where
  \<comment> \<open>\<open>user.nick || user.username\<close> on a guild member\<close>
  "nick_or_username m =
     (case nick m of None \<Rightarrow> member_username m
      | Some n \<Rightarrow> if n = [] then member_username m else n)"

definition user_formatted :: "ArgParser \<Rightarrow> jsstring \<Rightarrow> js_error + jsstring" where
  \<comment> \<open>lines 117 to 121: a user of the client has no \<open>nick\<close>\<close>
  "user_formatted p i =
     Inr (case channel_guild (msg p) of
            Some g \<Rightarrow>
              (case coll_get (members g) i of
                 Some m \<Rightarrow> js ''@'' @ nick_or_username m
               | None \<Rightarrow> js ''@deleted-user'')
          | None \<Rightarrow>
              (case coll_get (users (bot' p)) i of
                 Some u \<Rightarrow> js ''@'' @ username u
               | None \<Rightarrow> js ''@deleted-user''))"

definition channel_formatted :: "ArgParser \<Rightarrow> jsstring \<Rightarrow> js_error + jsstring" where
  \<comment> \<open>lines 126 and 127: \<open>this.msg.channel.guild.channels\<close> reads a property of
      \<open>undefined\<close> when the message has no guild, which throws a TypeError\<close>
  "channel_formatted p i =
     (case channel_guild (msg p) of
        None \<Rightarrow> Inl TypeError
      | Some g \<Rightarrow>
          Inr (case coll_get (channels g) i of
                 Some c \<Rightarrow> js ''#'' @ channel_name c
               | None \<Rightarrow> js ''#deleted-channel''))"

definition role_formatted :: "ArgParser \<Rightarrow> jsstring \<Rightarrow> js_error + jsstring" where
  \<comment> \<open>lines 132 and 133\<close>
  "role_formatted p i =
     (case channel_guild (msg p) of
        None \<Rightarrow> Inl TypeError
      | Some g \<Rightarrow>
          Inr (case coll_get (roles g) i of
                 Some r \<Rightarrow> js ''@'' @ role_name r
               | None \<Rightarrow> js ''@deleted-role''))"

definition and_then ::
  "(js_error + 'a) option \<Rightarrow> ('a \<Rightarrow> (js_error + 'b) option) \<Rightarrow> (js_error + 'b) option" where
  \<comment> \<open>sequencing: the next statement runs only when the one preceding it returned\<close>
  "and_then r f = (case r of None \<Rightarrow> None | Some (Inl e) \<Rightarrow> Some (Inl e) | Some (Inr x) \<Rightarrow> f x)"

definition clean_mentions :: "ArgParser \<Rightarrow> jsstring \<Rightarrow> (js_error + jsstring) option" where
  \<comment> \<open>lines 116 to 135: the user loop, then the channel loop, then the role loop\<close>
  "clean_mentions p a =
     and_then (mention_loop userMentionMatcher_exec (user_formatted p) a) (\<lambda>a1.
     and_then (mention_loop channelMentionMatcher_exec (channel_formatted p) a1) (\<lambda>a2.
     mention_loop roleMentionMatcher_exec (role_formatted p) a2))"

definition clean_everyone_here :: "jsstring \<Rightarrow> jsstring" where
  \<comment> \<open>lines 137 to 139\<close>
  "clean_everyone_here a =
     js_replace (js_replace a (js ''@everyone'') (js ''@'' @ [ZWSP] @ js ''everyone''))
       (js ''@here'') (js ''@'' @ [ZWSP] @ js ''here'')"

definition cleanContent ::
  "bool \<Rightarrow> ArgParser \<Rightarrow> (js_error + jsstring option) option \<times> ArgParser" where
  \<comment> \<open>the outcome is \<open>None\<close> when the call never returns, \<open>Some (Inl e)\<close> when it
      throws \<open>e\<close>, \<open>Some (Inr None)\<close> when it returns \<open>null\<close> and \<open>Some (Inr (Some s))\<close>
      when it returns the string \<open>s\<close>\<close>
  "cleanContent consumeRest p =
     (case consume consumeRest p of
        (a, p') \<Rightarrow>
          if falsy a then (Some (Inr None), p')
          else
            (and_then (clean_mentions p' (the a))
               (\<lambda>a3. Some (Inr (Some (clean_everyone_here a3)))), p'))"

definition isEmpty :: "ArgParser \<Rightarrow> bool" where
  \<comment> \<open>\<open>!this.args[0]\<close>\<close>
  "isEmpty p = falsy (case args p of [] \<Rightarrow> None | x # rest \<Rightarrow> Some x)"

definition gather :: "ArgParser \<Rightarrow> jsstring" where
  "gather p = js_join (js '' '') (args p)"

definition textLength :: "ArgParser \<Rightarrow> nat" where
  "textLength p = length (js_join (js '' '') (args p))"

definition getArgument :: "int \<Rightarrow> ArgParser \<Rightarrow> jsstring" where
  \<comment> \<open>\<open>this.args.slice(index, 1).join(' ')\<close>; the array is not written\<close>
  "getArgument index p = js_join (js '' '') (js_slice (args p) index 1)"

definition drop_arg :: "int \<Rightarrow> ArgParser \<Rightarrow> ArgParser" where
  \<comment> \<open>\<open>drop (index)\<close>: \<open>this.args.splice(index, 1)\<close>, the removed element discarded\<close>
  "drop_arg index p = p\<lparr>args := snd (js_splice (args p) index (Some 1))\<rparr>"

section \<open>Notions the claims are stated with\<close>

text \<open>Tokens joined by single spaces, as the specification words it.\<close>

fun joined_by_single_spaces :: "jsstring list \<Rightarrow> jsstring" where
  "joined_by_single_spaces [] = []"
| "joined_by_single_spaces [x] = x"
| "joined_by_single_spaces (x # y # ys) = x @ js '' '' @ joined_by_single_spaces (y # ys)"

text \<open>A small client, a guild, and a message outside and inside it, for the concrete runs.\<close>

definition jane :: user where
  "jane = \<lparr>user_id = js ''123456789012345678'', username = js ''Jane'',
            discriminator = js ''0001''\<rparr>"

definition numeric_name :: user where
  "numeric_name = \<lparr>user_id = js ''555555555555555555'', username = js ''12345678901234'',
            discriminator = js ''0002''\<rparr>"

definition general :: channel where
  "general = \<lparr>channel_id = js ''222222222222222222'', channel_name = js ''general''\<rparr>"

definition admin :: role where
  "admin = \<lparr>role_id = js ''333333333333333333'', role_name = js ''Admin''\<rparr>"

definition example_client :: client where
  "example_client =
     \<lparr>users = [(js ''123456789012345678'', jane), (js ''555555555555555555'', numeric_name)],
      getChannel = (\<lambda>i. if i = js ''222222222222222222'' then Some general else None)\<rparr>"

definition example_guild :: guild where
  "example_guild =
     \<lparr>channels = [(js ''222222222222222222'', general)],
      roles = [(js ''333333333333333333'', admin)],
      members = [(js ''123456789012345678'',
                  \<lparr>member_id = js ''123456789012345678'', nick = Some (js ''JJ''),
                   member_username = js ''Jane''\<rparr>)]\<rparr>"

definition direct_message :: message where
  "direct_message = \<lparr>channel_guild = None, msg_client = example_client\<rparr>"

definition guild_message :: message where
  "guild_message = \<lparr>channel_guild = Some example_guild, msg_client = example_client\<rparr>"

text \<open>A guild with one role, whose name is the empty string.\<close>

definition nameless_guild :: guild where
  "nameless_guild =
     \<lparr>channels = [],
      roles = [(js ''777777777777777777'', \<lparr>role_id = js ''777777777777777777'', role_name = []\<rparr>)],
      members = []\<rparr>"

definition nameless_message :: message where
  "nameless_message = \<lparr>channel_guild = Some nameless_guild, msg_client = example_client\<rparr>"

definition small_client :: client where
  "small_client = \<lparr>users = [(js ''123456789012345678'', jane)], getChannel = (\<lambda>i. None)\<rparr>"

definition small_direct_message :: message where
  "small_direct_message = \<lparr>channel_guild = None, msg_client = small_client\<rparr>"

text \<open>
  An ID is a string of 15 to 21 ASCII digits. A mention is an opener (\<open><@\<close>, \<open><@!\<close>,
  \<open><#\<close> or \<open><@&\<close>), an ID and \<open>>\<close>; a string contains a mention when one is a
  contiguous part of it.
\<close>

definition is_id :: "jsstring \<Rightarrow> bool" where
  "is_id d = (15 \<le> length d \<and> length d \<le> 21 \<and> list_all is_digit d)"

definition mention :: "jsstring \<Rightarrow> jsstring \<Rightarrow> jsstring" where
  "mention opener i = opener @ i @ js ''>''"

definition contains_mention :: "jsstring \<Rightarrow> jsstring \<Rightarrow> bool" where
  "contains_mention opener s = (\<exists>i. is_id i \<and> sublist (mention opener i) s)"

text \<open>
  \<open>first_occurrences lit t\<close> holds the position of the first occurrence of \<open>lit\<close> in
  \<open>t\<close>: the least position at which \<open>lit\<close> starts, and nothing when it starts nowhere.
  \<open>zwsp_before P k s\<close> is the string \<open>s\<close>, its first character counted as index \<open>k\<close>, with
  one zero-width space (the code unit \<open>0x200B\<close>) put in front of every character whose
  index is in \<open>P\<close>; \<open>ins k t\<close> puts a single one in front of index \<open>k\<close>.
\<close>

definition first_occurrences :: "jsstring \<Rightarrow> jsstring \<Rightarrow> nat set" where
  "first_occurrences lit t =
     {p. p \<le> length t \<and> prefix lit (drop p t) \<and> (\<forall>q<p. \<not> prefix lit (drop q t))}"

fun zwsp_before :: "nat set \<Rightarrow> nat \<Rightarrow> jsstring \<Rightarrow> jsstring" where
  "zwsp_before P k [] = []"
| "zwsp_before P k (c # cs) = (if k \<in> P then [0x200B, c] else [c]) @ zwsp_before P (Suc k) cs"

definition ins :: "nat \<Rightarrow> jsstring \<Rightarrow> jsstring" where
  "ins k t = take k t @ ZWSP # drop k t"

text \<open>
  Names for which the loops of \<open>cleanContent\<close> are shown to work. A name is inert when it is
  not empty, holds neither \<open><\<close> nor \<open>$\<close>, and does not begin with a digit, \<open>!\<close> or
  \<open>&\<close>. Every replacement the loops build is then \<open>@\<close> or \<open>#\<close> followed by an inert
  name. \<open>lt_count\<close> counts the \<open><\<close> of a string.
\<close>

definition inert :: "jsstring \<Rightarrow> bool" where
  "inert n = (n \<noteq> [] \<and> \<not> is_digit (hd n) \<and> hd n \<noteq> 0x21 \<and> hd n \<noteq> 0x26
              \<and> 0x3C \<notin> set n \<and> 0x24 \<notin> set n)"

definition inert_names :: "guild \<Rightarrow> bool" where
  "inert_names g =
     (list_all (\<lambda>kv. inert (nick_or_username (snd kv))) (members g)
      \<and> list_all (\<lambda>kv. inert (channel_name (snd kv))) (channels g)
      \<and> list_all (\<lambda>kv. inert (role_name (snd kv))) (roles g))"

definition openers :: "jsstring list" where
  "openers = [js ''<@'', js ''<@!'', js ''<#'', js ''<@&'']"

definition sign_then_inert :: "jsstring \<Rightarrow> bool" where
  "sign_then_inert r = (r \<noteq> [] \<and> (hd r = 0x40 \<or> hd r = 0x23) \<and> inert (tl r))"

definition lt_count :: "jsstring \<Rightarrow> nat" where
  "lt_count s = length (filter (\<lambda>c. c = 0x3C) s)"

text \<open>
  \<open>cleanable p s\<close>: in a guild, every name the loops can substitute is inert; outside a
  guild, every username of the client's users is inert and \<open>s\<close> holds no channel and no
  role mention.
\<close>

definition cleanable :: "ArgParser \<Rightarrow> jsstring \<Rightarrow> bool" where
  "cleanable p s =
     (case channel_guild (msg p) of
        Some g \<Rightarrow> inert_names g
      | None \<Rightarrow>
          list_all (\<lambda>kv. inert (username (snd kv))) (users (bot' p))
          \<and> channelMentionMatcher_exec s = None \<and> roleMentionMatcher_exec s = None)"

text \<open>
  A guild whose directories defeat the loops: a member whose nickname is a mention of
  that member, a role named by 18 digits and a role named \<open>$'\<close>.
\<close>

definition echo_guild :: guild where
  "echo_guild =
     \<lparr>channels = [],
      roles = [(js ''333333333333333333'',
                \<lparr>role_id = js ''333333333333333333'', role_name = js ''222222222222222222''\<rparr>),
               (js ''444444444444444444'',
                \<lparr>role_id = js ''444444444444444444'', role_name = [0x24, 0x27]\<rparr>)],
      members = [(js ''123456789012345678'',
                  \<lparr>member_id = js ''123456789012345678'',
                   nick = Some (js ''<@123456789012345678>''),
                   member_username = js ''Jane''\<rparr>)]\<rparr>"

definition echo_message :: message where
  "echo_message = \<lparr>channel_guild = Some echo_guild, msg_client = example_client\<rparr>"

definition at_signs :: "nat \<Rightarrow> jsstring" where
  "at_signs n = replicate n 0x40 @ js ''<@123456789012345678>''"

section \<open>Consuming tokens\<close>

lemma join_loop_pos: "0 < k \<Longrightarrow> join_loop sep R k xs = R @ concat (map (\<lambda>x. sep @ x) xs)"
  by (induction xs arbitrary: R k) simp_all

lemma js_join_Cons: "js_join sep (x # xs) = x @ concat (map (\<lambda>y. sep @ y) xs)"
  by (simp add: js_join_def join_loop_pos)

lemma joined_Cons: "joined_by_single_spaces (x # xs) = x @ concat (map (\<lambda>y. js '' '' @ y) xs)"
  by (induction xs arbitrary: x) simp_all

lemma js_join_spaces: "js_join (js '' '') xs = joined_by_single_spaces xs"
proof (cases xs)
  case Nil
  then show ?thesis by (simp add: js_join_def)
next
  case (Cons x r)
  then show ?thesis by (simp add: js_join_Cons joined_Cons)
qed

lemma js_splice_all: "js_splice xs 0 None = (xs, [])"
  by (simp add: js_splice_def relative_index_def)

lemma consume_rest: "consume True p = (Some (js_join (js '' '') (args p)), p\<lparr>args := []\<rparr>)"
  by (simp add: consume_def js_splice_all)

lemma consume_one:
  "consume False p =
     (case args p of [] \<Rightarrow> None | x # r \<Rightarrow> Some x, p\<lparr>args := drop 1 (args p)\<rparr>)"
  by (simp add: consume_def js_shift_def split: list.splits)

text \<open>
  C7. \<open>nextArgument(true)\<close> takes every remaining token: the list is left empty and the
  string returned is the tokens joined by single spaces. (For an empty list that is
  the empty string.)
\<close>

theorem nextArgument_rest:
  "nextArgument True p = (Some (joined_by_single_spaces (args p)), p\<lparr>args := []\<rparr>)"
  by (simp add: nextArgument_def consume_rest js_join_spaces)

theorem nextArgument_rest_witness:
  "fst (nextArgument True
          (new_ArgParser direct_message [js ''say'', js ''hello'', js ''world'']))
     = Some (js ''say hello world'')
   \<and> args (snd (nextArgument True
          (new_ArgParser direct_message [js ''say'', js ''hello'', js ''world'']))) = []"
  using nextArgument_rest [of "new_ArgParser direct_message [js ''say'', js ''hello'', js ''world'']"]
  by (simp add: new_ArgParser_def js_def)

text \<open>
  C5. \<open>resolveRole\<close> consumes before it looks at the guild: whatever the message, the
  list loses its first token (all of them with \<open>consumeRest\<close>) and nothing else of the
  parser changes. The result is absent as soon as the message has no guild; and it is
  absent as soon as the consumed string is empty or missing: with \<open>consumeRest\<close>, when the
  tokens joined by single spaces are the empty string; without it, when the list is
  empty or its first token is the empty string.
\<close>

theorem resolveRole_consumes_first:
  "args (snd (resolveRole consumeRest p)) = (if consumeRest then [] else drop 1 (args p))
   \<and> msg (snd (resolveRole consumeRest p)) = msg p
   \<and> bot' (snd (resolveRole consumeRest p)) = bot' p
   \<and> (channel_guild (msg p) = None \<longrightarrow> fst (resolveRole consumeRest p) = None)
   \<and> (consumeRest \<and> joined_by_single_spaces (args p) = []
        \<longrightarrow> fst (resolveRole consumeRest p) = None)
   \<and> (\<not> consumeRest \<and> (args p = [] \<or> hd (args p) = [])
        \<longrightarrow> fst (resolveRole consumeRest p) = None)"
proof (cases consumeRest)
  case True
  then show ?thesis
    by (auto simp add: resolveRole_def consume_rest js_join_spaces falsy_def Let_def
        split: option.splits)
next
  case False
  then show ?thesis
    by (cases "args p")
      (auto simp add: resolveRole_def consume_one falsy_def Let_def split: option.splits)
qed

theorem resolveRole_consumes_first_witness:
  "args (snd (resolveRole False (new_ArgParser direct_message [js ''Admin'', js ''x''])))
       = [js ''x'']
   \<and> fst (resolveRole False (new_ArgParser direct_message [js ''Admin'', js ''x''])) = None
   \<and> args (snd (resolveRole False (new_ArgParser nameless_message [[], js ''x'']))) = [js ''x'']
   \<and> fst (resolveRole False (new_ArgParser nameless_message [[], js ''x''])) = None
   \<and> fst (resolveRole False (new_ArgParser nameless_message [])) = None
   \<and> args (snd (resolveRole True (new_ArgParser nameless_message [[]]))) = []
   \<and> fst (resolveRole True (new_ArgParser nameless_message [[]])) = None"
  using resolveRole_consumes_first [of False "new_ArgParser direct_message [js ''Admin'', js ''x'']"]
    resolveRole_consumes_first [of False "new_ArgParser nameless_message [[], js ''x'']"]
    resolveRole_consumes_first [of False "new_ArgParser nameless_message []"]
    resolveRole_consumes_first [of True "new_ArgParser nameless_message [[]]"]
  by (simp add: new_ArgParser_def direct_message_def)

section \<open>What the regular expressions match\<close>

lemma js_gt: "js ''>'' = [0x3E]"
  by (simp add: js_def)

lemma not_digit_gt: "\<not> is_digit 0x3E"
  by (simp add: is_digit_def)

lemma set_digit_counts:
  "set (digit_counts s) = {n. 15 \<le> n \<and> n \<le> 21 \<and> n \<le> length (takeWhile is_digit s)}"
  by (auto simp add: digit_counts_def)

lemma find_unique:
  "(\<And>n. n \<in> set xs \<Longrightarrow> P n \<Longrightarrow> n = k) \<Longrightarrow>
     find P xs = (if k \<in> set xs \<and> P k then Some k else None)"
  by (induction xs) auto

lemma gt_after_digits:
  assumes "n \<le> length (takeWhile is_digit r)" and "prefix [0x3E] (drop n r)"
  shows "n = length (takeWhile is_digit r)"
proof (rule ccontr)
  assume "n \<noteq> length (takeWhile is_digit r)"
  with assms(1) have lt: "n < length (takeWhile is_digit r)" by simp
  then have "is_digit (takeWhile is_digit r ! n)"
    using nth_mem set_takeWhileD by metis
  moreover have "takeWhile is_digit r ! n = r ! n"
    using lt by (rule takeWhile_nth)
  moreover have "n < length r"
    using lt length_takeWhile_le [of is_digit r] by simp
  then have "r ! n = 0x3E"
    using assms(2) by (auto simp add: prefix_def dest: arg_cong [where f = hd] simp: hd_drop_conv_nth)
  ultimately show False by (simp add: not_digit_gt)
qed

lemma digits_then_gt:
  "find (\<lambda>n. prefix (js ''>'') (drop n r)) (digit_counts r) =
     (let n = length (takeWhile is_digit r) in
      if 15 \<le> n \<and> n \<le> 21 \<and> prefix (js ''>'') (drop n r) then Some n else None)"
proof -
  have "find (\<lambda>n. prefix (js ''>'') (drop n r)) (digit_counts r) =
      (if length (takeWhile is_digit r) \<in> set (digit_counts r)
          \<and> prefix (js ''>'') (drop (length (takeWhile is_digit r)) r)
       then Some (length (takeWhile is_digit r)) else None)"
    by (rule find_unique) (simp add: set_digit_counts js_gt gt_after_digits)
  then show ?thesis by (simp add: set_digit_counts Let_def)
qed

lemma idMatcher_exec_eq: "idMatcher_exec s = (if is_id s then Some (s, s) else None)"
proof -
  have "find (\<lambda>n. n = length s) (digit_counts s) =
      (if length s \<in> set (digit_counts s) \<and> length s = length s then Some (length s) else None)"
    by (rule find_unique) simp
  moreover have "length s \<le> length (takeWhile is_digit s) \<longleftrightarrow> list_all is_digit s"
    using length_takeWhile_le [of is_digit s] takeWhile_eq_all_conv [of is_digit s]
    by (metis order_antisym length_takeWhile_le list_all_iff takeWhile_eq_take take_all order_refl)
  ultimately show ?thesis
    by (auto simp add: idMatcher_exec_def set_digit_counts is_id_def)
qed

lemma match_lit_id_gt_iff:
  "match_lit_id_gt lit s = Some (m, i) \<longleftrightarrow> is_id i \<and> m = lit @ i @ js ''>'' \<and> prefix m s"
proof
  assume a: "match_lit_id_gt lit s = Some (m, i)"
  then have p: "prefix lit s" by (simp add: match_lit_id_gt_def split: if_splits)
  define r where "r = drop (length lit) s"
  define n where "n = length (takeWhile is_digit r)"
  have s: "s = lit @ r" using p by (auto simp add: r_def prefix_def)
  from a p have c: "(let n = length (takeWhile is_digit r) in
      if 15 \<le> n \<and> n \<le> 21 \<and> prefix (js ''>'') (drop n r)
      then Some (lit @ take n r @ js ''>'', take n r) else None) = Some (m, i)"
    unfolding match_lit_id_gt_def digits_then_gt r_def [symmetric]
    by (auto simp add: Let_def r_def [symmetric] split: if_splits)
  then have b: "15 \<le> n" "n \<le> 21" "prefix (js ''>'') (drop n r)"
      "m = lit @ take n r @ js ''>''" "i = take n r"
    unfolding Let_def n_def [symmetric] by (auto split: if_splits)
  have t: "take n r = takeWhile is_digit r"
    unfolding n_def by (rule takeWhile_eq_take [symmetric])
  have "list_all is_digit (take n r)"
    unfolding t by (simp add: list_all_iff) (meson set_takeWhileD)
  moreover have "length (take n r) = n"
    unfolding t by (simp add: n_def)
  ultimately have "is_id i" using b by (simp add: is_id_def)
  moreover have "prefix m s"
  proof -
    from b(3) obtain z where "drop n r = js ''>'' @ z" by (auto simp add: prefix_def)
    then have "r = take n r @ js ''>'' @ z" by (metis append_take_drop_id)
    then have "s = m @ z" using s b(4) by simp
    then show ?thesis by (simp add: prefix_def)
  qed
  ultimately show "is_id i \<and> m = lit @ i @ js ''>'' \<and> prefix m s" using b by simp
next
  assume a: "is_id i \<and> m = lit @ i @ js ''>'' \<and> prefix m s"
  then obtain z where s: "s = lit @ i @ js ''>'' @ z" by (auto simp add: prefix_def)
  have tw: "takeWhile is_digit (i @ js ''>'' @ z) = i"
    using a by (simp add: is_id_def list_all_iff js_gt takeWhile_append2 not_digit_gt)
  show "match_lit_id_gt lit s = Some (m, i)"
    using a by (simp add: match_lit_id_gt_def s digits_then_gt tw Let_def is_id_def)
qed

lemma regex_exec_hit: "at t = Some x \<Longrightarrow> regex_exec at t = Some x"
  by (cases t) simp_all

lemma regex_exec_skip:
  "(\<And>u. u \<noteq> [] \<Longrightarrow> suffix u pre \<Longrightarrow> at (u @ t) = None) \<Longrightarrow>
     regex_exec at (pre @ t) = regex_exec at t"
proof (induction pre)
  case Nil
  then show ?case by simp
next
  case (Cons c pre)
  have "at ((c # pre) @ t) = None"
    by (rule Cons.prems) simp_all
  moreover have "regex_exec at (pre @ t) = regex_exec at t"
    by (rule Cons.IH) (simp add: Cons.prems suffix_Cons)
  ultimately show ?case by simp
qed

lemma regex_exec_None_iff: "regex_exec at s = None \<longleftrightarrow> (\<forall>t. suffix t s \<longrightarrow> at t = None)"
proof (induction s)
  case Nil
  then show ?case by simp
next
  case (Cons c s)
  show ?case
    by (auto simp add: Cons.IH suffix_Cons split: option.splits)
qed

lemma regex_exec_SomeD:
  "regex_exec at s = Some x \<Longrightarrow> \<exists>t. suffix t s \<and> at t = Some x"
proof (induction s)
  case Nil
  then show ?case by simp
next
  case (Cons c s)
  then show ?case
    by (cases "at (c # s)") (auto simp add: suffix_Cons)
qed

lemma match_mention_iff:
  "match_lit_id_gt lit s = Some (m, i) \<longleftrightarrow> is_id i \<and> m = mention lit i \<and> prefix m s"
  by (simp add: match_lit_id_gt_iff mention_def)

lemma exec_mention_None_iff:
  "regex_exec (match_lit_id_gt lit) s = None \<longleftrightarrow> \<not> contains_mention lit s"
proof
  assume a: "regex_exec (match_lit_id_gt lit) s = None"
  show "\<not> contains_mention lit s"
  proof
    assume "contains_mention lit s"
    then obtain i where i: "is_id i" "sublist (mention lit i) s"
      by (auto simp add: contains_mention_def)
    then obtain t where t: "suffix t s" "prefix (mention lit i) t"
      by (auto simp add: sublist_altdef')
    then have "match_lit_id_gt lit t = Some (mention lit i, i)"
      using i by (simp add: match_mention_iff)
    with a t(1) show False by (simp add: regex_exec_None_iff)
  qed
next
  assume a: "\<not> contains_mention lit s"
  show "regex_exec (match_lit_id_gt lit) s = None"
  proof (rule ccontr)
    assume "regex_exec (match_lit_id_gt lit) s \<noteq> None"
    then obtain m i where "regex_exec (match_lit_id_gt lit) s = Some (m, i)" by auto
    then obtain t where "suffix t s" "match_lit_id_gt lit t = Some (m, i)"
      by (blast dest: regex_exec_SomeD)
    then have "is_id i" "suffix t s" "prefix (mention lit i) t"
      by (auto simp add: match_mention_iff)
    then have "contains_mention lit s"
      by (auto simp add: contains_mention_def sublist_altdef')
    with a show False by simp
  qed
qed

lemma userMention_at_iff:
  "userMention_at s = Some (m, i) \<longleftrightarrow>
     is_id i \<and> (m = mention (js ''<@!'') i \<or> m = mention (js ''<@'') i) \<and> prefix m s"
proof -
  have excl: "\<not> (prefix (mention (js ''<@!'') j) s \<and> is_id i \<and> prefix (mention (js ''<@'') i) s)" for j
  proof
    assume a: "prefix (mention (js ''<@!'') j) s \<and> is_id i \<and> prefix (mention (js ''<@'') i) s"
    then have "i \<noteq> []" by (auto simp add: is_id_def)
    then obtain c r where i: "i = c # r" by (cases i) auto
    with a have "is_digit c" by (simp add: is_id_def)
    moreover from a i have "c = 0x21"
      by (auto simp add: mention_def js_def prefix_def)
    ultimately show False by (simp add: is_digit_def)
  qed
  show ?thesis
  proof (cases "match_lit_id_gt (js ''<@!'') s")
    case None
    then have "\<not> (is_id i \<and> prefix (mention (js ''<@!'') i) s)"
      using match_mention_iff [of "js ''<@!''" s "mention (js ''<@!'') i" i] by auto
    with None show ?thesis
      by (auto simp add: userMention_at_def match_mention_iff)
  next
    case (Some x)
    obtain m' j where x: "x = (m', j)" by (cases x)
    with Some have j: "is_id j" "m' = mention (js ''<@!'') j" "prefix m' s"
      by (auto simp add: match_mention_iff)
    have "mention (js ''<@!'') i = mention (js ''<@!'') j" if "prefix (mention (js ''<@!'') i) s" "is_id i"
      using that j match_mention_iff [of "js ''<@!''" s "mention (js ''<@!'') i" i] Some x by simp
    moreover have "i = j" if "mention (js ''<@!'') i = mention (js ''<@!'') j"
      using that by (simp add: mention_def)
    ultimately show ?thesis
      using Some x j excl [of j] by (auto simp add: userMention_at_def)
  qed
qed

section \<open>The resolvers\<close>

lemma match_needs_prefix: "\<not> prefix lit u \<Longrightarrow> match_lit_id_gt lit u = None"
  by (simp add: match_lit_id_gt_def)

lemma userMention_at_None_iff:
  "userMention_at t = None \<longleftrightarrow>
     match_lit_id_gt (js ''<@!'') t = None \<and> match_lit_id_gt (js ''<@'') t = None"
  by (simp add: userMention_at_def split: option.splits)

lemma user_exec_None_iff:
  "userMentionMatcher_exec s = None \<longleftrightarrow>
     \<not> contains_mention (js ''<@'') s \<and> \<not> contains_mention (js ''<@!'') s"
  unfolding userMentionMatcher_exec_def exec_mention_None_iff [symmetric]
  by (auto simp add: regex_exec_None_iff userMention_at_None_iff)

lemma channel_exec_None_iff:
  "channelMentionMatcher_exec s = None \<longleftrightarrow> \<not> contains_mention (js ''<#'') s"
proof -
  have h: "channelMention_at = match_lit_id_gt (js ''<#'')"
    by (rule ext) (simp add: channelMention_at_def)
  show ?thesis by (simp only: channelMentionMatcher_exec_def h exec_mention_None_iff)
qed

lemma role_exec_None_iff:
  "roleMentionMatcher_exec s = None \<longleftrightarrow> \<not> contains_mention (js ''<@&'') s"
proof -
  have h: "roleMention_at = match_lit_id_gt (js ''<@&'')"
    by (rule ext) (simp add: roleMention_at_def)
  show ?thesis by (simp only: roleMentionMatcher_exec_def h exec_mention_None_iff)
qed

lemma mention_has_lt:
  "hd lit = 0x3C \<Longrightarrow> lit \<noteq> [] \<Longrightarrow> contains_mention lit s \<Longrightarrow> 0x3C \<in> set s"
proof -
  assume a: "hd lit = 0x3C" "lit \<noteq> []" "contains_mention lit s"
  then obtain i where "sublist (mention lit i) s" by (auto simp add: contains_mention_def)
  then have "set (mention lit i) \<subseteq> set s" by (rule set_mono_sublist)
  moreover have "0x3C \<in> set lit" using a(1,2) by (metis hd_in_set)
  ultimately show ?thesis by (auto simp add: mention_def)
qed

lemma digits_no_lt: "list_all is_digit s \<Longrightarrow> 0x3C \<notin> set s"
  by (auto simp add: list_all_iff is_digit_def)

lemma digits_no_mention:
  assumes "list_all is_digit s"
  shows "userMentionMatcher_exec s = None" "channelMentionMatcher_exec s = None"
    "roleMentionMatcher_exec s = None"
  using assms mention_has_lt [of "js ''<@''" s] mention_has_lt [of "js ''<@!''" s]
    mention_has_lt [of "js ''<#''" s] mention_has_lt [of "js ''<@&''" s] digits_no_lt [of s]
  by (auto simp add: user_exec_None_iff channel_exec_None_iff role_exec_None_iff js_def)

lemma slice_fifth_from_end:
  "5 < length s \<Longrightarrow> js_slice s (- 5) (- 4) = [s ! (length s - 5)]"
proof -
  assume a: "5 < length s"
  then have k: "relative_index (- 5) (length s) = length s - 5"
    and f: "relative_index (- 4) (length s) = length s - 4"
    by (simp_all add: relative_index_def)
  have "take (Suc 0) (drop (length s - 5) s) = [s ! (length s - 5)]"
    using a by (simp add: take_Suc_conv_app_nth hd_drop_conv_nth take_Suc)
  moreover have "length s - 4 - (length s - 5) = Suc 0" using a by simp
  ultimately show ?thesis by (simp add: js_slice_def k f Let_def)
qed

lemma consumed_parser:
  "snd (consume consumeRest p) = p\<lparr>args := if consumeRest then [] else drop 1 (args p)\<rparr>"
  by (cases consumeRest) (simp_all add: consume_rest consume_one)

lemma resolveUser_unfold:
  assumes "fst (consume consumeRest p) = Some s" and "s \<noteq> []"
  shows "fst (resolveUser consumeRest p) =
     (case or_else (idMatcher_exec s) (userMentionMatcher_exec s) of
        Some idMatch \<Rightarrow> coll_get (users (bot' p)) (snd idMatch)
      | None \<Rightarrow>
          if 5 < length s \<and> js_slice s (- 5) (- 4) = js ''#'' then
            coll_find (users (bot' p)) (\<lambda>u. username u @ js ''#'' @ discriminator u = s)
          else coll_find (users (bot' p)) (\<lambda>u. username u = s))"
proof -
  obtain a p' where c: "consume consumeRest p = (a, p')" by (cases "consume consumeRest p")
  with assms have a: "a = Some s" by simp
  from c have "p' = p\<lparr>args := if consumeRest then [] else drop 1 (args p)\<rparr>"
    using consumed_parser [of consumeRest p] by simp
  then have b: "bot' p' = bot' p" by simp
  show ?thesis
    using assms(2) by (auto simp add: resolveUser_def c a falsy_def b Let_def split: option.splits)
qed

lemma resolveChannel_unfold:
  assumes "fst (consume consumeRest p) = Some s" and "s \<noteq> []"
  shows "fst (resolveChannel consumeRest p) =
     (case or_else (idMatcher_exec s) (channelMentionMatcher_exec s) of
        Some idMatch \<Rightarrow> getChannel (bot' p) (snd idMatch)
      | None \<Rightarrow>
          (case channel_guild (msg p) of
             None \<Rightarrow> None
           | Some g \<Rightarrow> coll_find (channels g) (\<lambda>c. channel_name c = s)))"
proof -
  obtain a p' where c: "consume consumeRest p = (a, p')" by (cases "consume consumeRest p")
  with assms have a: "a = Some s" by simp
  from c have "p' = p\<lparr>args := if consumeRest then [] else drop 1 (args p)\<rparr>"
    using consumed_parser [of consumeRest p] by simp
  then have b: "bot' p' = bot' p" "msg p' = msg p" by simp_all
  show ?thesis
    using assms(2) by (simp add: resolveChannel_def c a falsy_def b Let_def split: option.splits)
qed

lemma resolveRole_unfold:
  assumes "fst (consume consumeRest p) = Some s" and "s \<noteq> []"
  shows "fst (resolveRole consumeRest p) =
     (case channel_guild (msg p) of
        None \<Rightarrow> None
      | Some g \<Rightarrow>
          (case or_else (idMatcher_exec s) (roleMentionMatcher_exec s) of
             Some idMatch \<Rightarrow> coll_get (roles g) (snd idMatch)
           | None \<Rightarrow> coll_find (roles g) (\<lambda>r. role_name r = s)))"
proof -
  obtain a p' where c: "consume consumeRest p = (a, p')" by (cases "consume consumeRest p")
  with assms have a: "a = Some s" by simp
  from c have "p' = p\<lparr>args := if consumeRest then [] else drop 1 (args p)\<rparr>"
    using consumed_parser [of consumeRest p] by simp
  then have b: "bot' p' = bot' p" "msg p' = msg p" by simp_all
  show ?thesis
    using assms(2) by (simp add: resolveRole_def c a falsy_def b Let_def split: option.splits)
qed

text \<open>
  C8. \<open>resolveUser\<close> on a consumed string that is not empty, is not a bare ID and
  contains no user mention (so that neither pattern of line 28 matches): the lookup
  compares \<open>username#discriminator\<close> with the whole string exactly when the string is
  longer than 5 and its fifth character from the end is \<open>#\<close>; otherwise it compares
  \<open>username\<close> alone. Either way it is the first user of the directory that matches.
\<close>

theorem resolveUser_name_lookup:
  assumes "fst (consume consumeRest p) = Some s" and "s \<noteq> []"
    and "\<not> is_id s"
    and "\<not> contains_mention (js ''<@'') s" and "\<not> contains_mention (js ''<@!'') s"
  shows "fst (resolveUser consumeRest p) =
     (if 5 < length s \<and> s ! (length s - 5) = 0x23
      then coll_find (users (bot' p)) (\<lambda>u. username u @ js ''#'' @ discriminator u = s)
      else coll_find (users (bot' p)) (\<lambda>u. username u = s))"
proof -
  have "or_else (idMatcher_exec s) (userMentionMatcher_exec s) = None"
    using assms(3-5) by (simp add: or_else_def idMatcher_exec_eq user_exec_None_iff)
  moreover have "js_slice s (- 5) (- 4) = js ''#'' \<longleftrightarrow> s ! (length s - 5) = 0x23" if "5 < length s"
    using that by (simp add: slice_fifth_from_end js_def)
  ultimately show ?thesis
    using assms(1,2) by (auto simp add: resolveUser_unfold)
qed

theorem resolveUser_name_lookup_witness:
  "fst (resolveUser False (new_ArgParser direct_message [js ''Jane#0001''])) = Some jane
   \<and> fst (resolveUser False (new_ArgParser direct_message [js ''Jane''])) = Some jane
   \<and> fst (resolveUser False (new_ArgParser direct_message [js ''Jane#0002''])) = None"
proof -
  have c: "fst (consume False (new_ArgParser direct_message [t])) = Some t" for t
    by (simp add: consume_one new_ArgParser_def)
  have u: "users (bot' (new_ArgParser direct_message a)) = [(js ''123456789012345678'', jane), (js ''555555555555555555'', numeric_name)]" for a
    by (simp add: new_ArgParser_def direct_message_def example_client_def)
  have n1: "js ''Jane#0001'' \<noteq> []" "\<not> is_id (js ''Jane#0001'')"
    "\<not> contains_mention (js ''<@'') (js ''Jane#0001'')"
    "\<not> contains_mention (js ''<@!'') (js ''Jane#0001'')"
    using user_exec_None_iff [of "js ''Jane#0001''"]
    by (simp_all add: is_id_def js_def userMentionMatcher_exec_def userMention_at_def match_lit_id_gt_def)
  have n2: "js ''Jane'' \<noteq> []" "\<not> is_id (js ''Jane'')"
    "\<not> contains_mention (js ''<@'') (js ''Jane'')"
    "\<not> contains_mention (js ''<@!'') (js ''Jane'')"
    using user_exec_None_iff [of "js ''Jane''"]
    by (simp_all add: is_id_def js_def userMentionMatcher_exec_def userMention_at_def match_lit_id_gt_def)
  have n3: "js ''Jane#0002'' \<noteq> []" "\<not> is_id (js ''Jane#0002'')"
    "\<not> contains_mention (js ''<@'') (js ''Jane#0002'')"
    "\<not> contains_mention (js ''<@!'') (js ''Jane#0002'')"
    using user_exec_None_iff [of "js ''Jane#0002''"]
    by (simp_all add: is_id_def js_def userMentionMatcher_exec_def userMention_at_def match_lit_id_gt_def)
  show ?thesis
    using resolveUser_name_lookup [OF c n1] resolveUser_name_lookup [OF c n2]
      resolveUser_name_lookup [OF c n3]
    by (simp add: u coll_find_def jane_def numeric_name_def js_def)
qed

text \<open>
  C9. \<open>idMatcher\<close> matches exactly the strings of 15 to 21 ASCII digits, and what it
  captures is the whole string. A consumed string of 15 to 21 digits is looked up by ID
  in all three resolvers: in the client's users, through the client's \<open>getChannel\<close>, and in
  the guild's roles. A non-empty string of digits that is shorter than 15 or longer than
  21 is looked up by name instead: by \<open>username\<close> in \<open>resolveUser\<close>, and by channel or role
  name in the guild in \<open>resolveChannel\<close> and \<open>resolveRole\<close> (which have no name lookup, and
  return absent, outside a guild; \<open>resolveRole\<close> returns absent there for an ID too).
\<close>

theorem idMatcher_exactly_ids:
  "idMatcher_exec s = (if is_id s then Some (s, s) else None)
   \<and> (is_id s \<and> fst (consume consumeRest p) = Some s \<longrightarrow>
      fst (resolveUser consumeRest p) = coll_get (users (bot' p)) s
      \<and> fst (resolveChannel consumeRest p) = getChannel (bot' p) s
      \<and> fst (resolveRole consumeRest p) =
          (case channel_guild (msg p) of
             None \<Rightarrow> None
           | Some g \<Rightarrow> coll_get (roles g) s))
   \<and> (list_all is_digit s \<and> s \<noteq> [] \<and> (length s < 15 \<or> 21 < length s)
        \<and> fst (consume consumeRest p) = Some s \<longrightarrow>
      fst (resolveUser consumeRest p) = coll_find (users (bot' p)) (\<lambda>u. username u = s)
      \<and> fst (resolveChannel consumeRest p) =
          (case channel_guild (msg p) of
             None \<Rightarrow> None
           | Some g \<Rightarrow> coll_find (channels g) (\<lambda>c. channel_name c = s))
      \<and> fst (resolveRole consumeRest p) =
          (case channel_guild (msg p) of
             None \<Rightarrow> None
           | Some g \<Rightarrow> coll_find (roles g) (\<lambda>r. role_name r = s)))"
proof (intro conjI impI)
  show "idMatcher_exec s = (if is_id s then Some (s, s) else None)"
    by (rule idMatcher_exec_eq)
next
  assume a: "is_id s \<and> fst (consume consumeRest p) = Some s"
  then have n: "s \<noteq> []" by (auto simp add: is_id_def)
  from a have m: "or_else (idMatcher_exec s) x = Some (s, s)" for x
    by (simp add: idMatcher_exec_eq or_else_def)
  from a n show "fst (resolveUser consumeRest p) = coll_get (users (bot' p)) s"
    by (simp add: resolveUser_unfold m)
  from a n show "fst (resolveChannel consumeRest p) = getChannel (bot' p) s"
    by (simp add: resolveChannel_unfold m)
  from a n show "fst (resolveRole consumeRest p) =
          (case channel_guild (msg p) of
             None \<Rightarrow> None
           | Some g \<Rightarrow> coll_get (roles g) s)"
    by (simp add: resolveRole_unfold m split: option.splits)
next
  assume a: "list_all is_digit s \<and> s \<noteq> [] \<and> (length s < 15 \<or> 21 < length s)
        \<and> fst (consume consumeRest p) = Some s"
  then have n: "idMatcher_exec s = None" by (auto simp add: idMatcher_exec_eq is_id_def)
  have d: "is_digit (s ! (length s - 5))" if "5 < length s"
    using a that by (simp add: list_all_length)
  have h: "\<not> (5 < length s \<and> js_slice s (- 5) (- 4) = js ''#'')"
    using d by (auto simp add: slice_fifth_from_end js_def is_digit_def)
  from a n h show "fst (resolveUser consumeRest p) = coll_find (users (bot' p)) (\<lambda>u. username u = s)"
    by (auto simp add: resolveUser_unfold digits_no_mention or_else_def)
  from a n show "fst (resolveChannel consumeRest p) =
          (case channel_guild (msg p) of
             None \<Rightarrow> None
           | Some g \<Rightarrow> coll_find (channels g) (\<lambda>c. channel_name c = s))"
    by (simp add: resolveChannel_unfold digits_no_mention or_else_def)
  from a n show "fst (resolveRole consumeRest p) =
          (case channel_guild (msg p) of
             None \<Rightarrow> None
           | Some g \<Rightarrow> coll_find (roles g) (\<lambda>r. role_name r = s))"
    by (simp add: resolveRole_unfold digits_no_mention or_else_def split: option.splits)
qed

theorem idMatcher_exactly_ids_witness:
  "idMatcher_exec (js ''123456789012345678'') = Some (js ''123456789012345678'', js ''123456789012345678'')
   \<and> idMatcher_exec (js ''123456789012345'') = Some (js ''123456789012345'', js ''123456789012345'')
   \<and> idMatcher_exec (js ''123456789012345678901'')
       = Some (js ''123456789012345678901'', js ''123456789012345678901'')
   \<and> idMatcher_exec (js ''12345678901234'') = None
   \<and> idMatcher_exec (js ''1234567890123456789012'') = None
   \<and> idMatcher_exec (js ''12345678901234567x'') = None
   \<and> fst (resolveUser False (new_ArgParser guild_message [js ''123456789012345678''])) = Some jane
   \<and> fst (resolveChannel False (new_ArgParser guild_message [js ''222222222222222222''])) = Some general
   \<and> fst (resolveRole False (new_ArgParser guild_message [js ''333333333333333333''])) = Some admin
   \<and> fst (resolveUser False (new_ArgParser guild_message [js ''12345678901234''])) = Some numeric_name
   \<and> fst (resolveChannel False (new_ArgParser guild_message [js ''12345678901234''])) = None
   \<and> fst (resolveRole False (new_ArgParser guild_message [js ''12345678901234''])) = None"
proof -
  have c: "fst (consume False (new_ArgParser guild_message [t])) = Some t" for t
    by (simp add: consume_one new_ArgParser_def)
  have d: "list_all is_digit (js ''12345678901234'')" "js ''12345678901234'' \<noteq> []"
    "length (js ''12345678901234'') < 15" "is_id (js ''123456789012345678'')"
    "is_id (js ''222222222222222222'')" "is_id (js ''333333333333333333'')"
    "is_id (js ''123456789012345'')" "is_id (js ''123456789012345678901'')"
    "\<not> is_id (js ''1234567890123456789012'')" "\<not> is_id (js ''12345678901234567x'')"
    by (simp_all add: js_def is_digit_def is_id_def)
  have b: "idMatcher_exec (js ''123456789012345'') = Some (js ''123456789012345'', js ''123456789012345'')"
    "idMatcher_exec (js ''123456789012345678901'')
       = Some (js ''123456789012345678901'', js ''123456789012345678901'')"
    "idMatcher_exec (js ''1234567890123456789012'') = None"
    "idMatcher_exec (js ''12345678901234567x'') = None"
    using idMatcher_exactly_ids [of "js ''123456789012345''" False "new_ArgParser guild_message []"]
      idMatcher_exactly_ids [of "js ''123456789012345678901''" False "new_ArgParser guild_message []"]
      idMatcher_exactly_ids [of "js ''1234567890123456789012''" False "new_ArgParser guild_message []"]
      idMatcher_exactly_ids [of "js ''12345678901234567x''" False "new_ArgParser guild_message []"]
      d
    by simp_all
  have r: "idMatcher_exec (js ''123456789012345678'') = Some (js ''123456789012345678'', js ''123456789012345678'')
   \<and> idMatcher_exec (js ''12345678901234'') = None
   \<and> fst (resolveUser False (new_ArgParser guild_message [js ''123456789012345678''])) = Some jane
   \<and> fst (resolveChannel False (new_ArgParser guild_message [js ''222222222222222222''])) = Some general
   \<and> fst (resolveRole False (new_ArgParser guild_message [js ''333333333333333333''])) = Some admin
   \<and> fst (resolveUser False (new_ArgParser guild_message [js ''12345678901234''])) = Some numeric_name
   \<and> fst (resolveChannel False (new_ArgParser guild_message [js ''12345678901234''])) = None
   \<and> fst (resolveRole False (new_ArgParser guild_message [js ''12345678901234''])) = None"
    using idMatcher_exactly_ids [of "js ''123456789012345678''" False "new_ArgParser guild_message [js ''123456789012345678'']"]
      idMatcher_exactly_ids [of "js ''222222222222222222''" False "new_ArgParser guild_message [js ''222222222222222222'']"]
      idMatcher_exactly_ids [of "js ''333333333333333333''" False "new_ArgParser guild_message [js ''333333333333333333'']"]
      idMatcher_exactly_ids [of "js ''12345678901234''" False "new_ArgParser guild_message [js ''12345678901234'']"]
      c d
    by (simp add: new_ArgParser_def guild_message_def example_client_def example_guild_def
        coll_find_def coll_get_def jane_def numeric_name_def general_def admin_def js_def is_id_def)
  from b r show ?thesis by simp
qed

lemma hd_not_prefix: "lit \<noteq> [] \<Longrightarrow> u \<noteq> [] \<Longrightarrow> hd u \<noteq> hd lit \<Longrightarrow> \<not> prefix lit (u @ t)"
  by (cases lit; cases u) auto

lemma suffix_hd_in_set: "suffix u pre \<Longrightarrow> u \<noteq> [] \<Longrightarrow> hd u \<in> set pre"
  by (metis hd_in_set set_mono_suffix subsetD)

lemma exec_finds_mention:
  assumes "is_id i" and "hd lit = 0x3C" and "lit \<noteq> []"
  shows "\<exists>i'. is_id i' \<and> sublist (mention lit i') (pre @ mention lit i @ post)
           \<and> (0x3C \<notin> set pre \<longrightarrow> i' = i)
           \<and> regex_exec (match_lit_id_gt lit) (pre @ mention lit i @ post)
               = Some (mention lit i', i')"
proof (cases "0x3C \<in> set pre")
  case False
  have here: "match_lit_id_gt lit (mention lit i @ post) = Some (mention lit i, i)"
    using assms(1) by (simp add: match_mention_iff)
  have "regex_exec (match_lit_id_gt lit) (pre @ mention lit i @ post)
      = regex_exec (match_lit_id_gt lit) (mention lit i @ post)"
  proof (rule regex_exec_skip)
    fix u :: jsstring
    assume u: "u \<noteq> []" "suffix u pre"
    then have "hd u \<noteq> hd lit"
      using False assms(2) suffix_hd_in_set by metis
    then show "match_lit_id_gt lit (u @ mention lit i @ post) = None"
      using u(1) assms(3) by (simp add: match_needs_prefix hd_not_prefix)
  qed
  then have "regex_exec (match_lit_id_gt lit) (pre @ mention lit i @ post)
      = Some (mention lit i, i)"
    using here by (simp add: regex_exec_hit)
  then show ?thesis using assms(1) by auto
next
  case True
  have "contains_mention lit (pre @ mention lit i @ post)"
    using assms(1) by (auto simp add: contains_mention_def)
  then have "regex_exec (match_lit_id_gt lit) (pre @ mention lit i @ post) \<noteq> None"
    by (simp add: exec_mention_None_iff)
  then obtain m' i' where
    e: "regex_exec (match_lit_id_gt lit) (pre @ mention lit i @ post) = Some (m', i')" by auto
  then obtain t where "suffix t (pre @ mention lit i @ post)" "match_lit_id_gt lit t = Some (m', i')"
    by (blast dest: regex_exec_SomeD)
  then have "is_id i'" "m' = mention lit i'" "sublist m' (pre @ mention lit i @ post)"
    by (auto simp add: match_mention_iff sublist_altdef')
  with e True show ?thesis by auto
qed

lemma user_exec_finds_mention:
  assumes "is_id i" and "m = mention (js ''<@'') i \<or> m = mention (js ''<@!'') i"
  shows "\<exists>m' i'. is_id i' \<and> (m' = mention (js ''<@'') i' \<or> m' = mention (js ''<@!'') i')
           \<and> sublist m' (pre @ m @ post) \<and> (0x3C \<notin> set pre \<longrightarrow> i' = i)
           \<and> userMentionMatcher_exec (pre @ m @ post) = Some (m', i')"
proof (cases "0x3C \<in> set pre")
  case False
  have here: "userMention_at (m @ post) = Some (m, i)"
    using assms by (auto simp add: userMention_at_iff)
  have "regex_exec userMention_at (pre @ m @ post) = regex_exec userMention_at (m @ post)"
  proof (rule regex_exec_skip)
    fix u :: jsstring
    assume u: "u \<noteq> []" "suffix u pre"
    then have "hd u \<noteq> 0x3C"
      using False suffix_hd_in_set by metis
    then have "\<not> prefix (js ''<@!'') (u @ m @ post)" "\<not> prefix (js ''<@'') (u @ m @ post)"
      using u(1) by (simp_all add: hd_not_prefix js_def)
    then show "userMention_at (u @ m @ post) = None"
      by (simp add: userMention_at_None_iff match_needs_prefix)
  qed
  then have "userMentionMatcher_exec (pre @ m @ post) = Some (m, i)"
    using here by (simp add: regex_exec_hit userMentionMatcher_exec_def)
  then show ?thesis using assms by auto
next
  case True
  have "contains_mention (js ''<@'') (pre @ m @ post) \<or> contains_mention (js ''<@!'') (pre @ m @ post)"
    using assms by (auto simp add: contains_mention_def)
  then have "userMentionMatcher_exec (pre @ m @ post) \<noteq> None"
    by (auto simp add: user_exec_None_iff)
  then obtain m' i' where
    e: "userMentionMatcher_exec (pre @ m @ post) = Some (m', i')" by auto
  then obtain t where "suffix t (pre @ m @ post)" "userMention_at t = Some (m', i')"
    unfolding userMentionMatcher_exec_def by (blast dest: regex_exec_SomeD)
  then have "is_id i'" "m' = mention (js ''<@'') i' \<or> m' = mention (js ''<@!'') i'"
    "sublist m' (pre @ m @ post)"
    by (auto simp add: userMention_at_iff sublist_altdef')
  with e True show ?thesis by auto
qed

lemma mention_not_id: "hd lit = 0x3C \<Longrightarrow> lit \<noteq> [] \<Longrightarrow> idMatcher_exec (pre @ mention lit i @ post) = None"
proof -
  assume a: "hd lit = 0x3C" "lit \<noteq> []"
  then have "0x3C \<in> set lit" by (metis hd_in_set)
  then have "0x3C \<in> set (pre @ mention lit i @ post)"
    by (simp add: mention_def)
  moreover have "\<not> is_digit 0x3C" by (simp add: is_digit_def)
  ultimately have "\<not> list_all is_digit (pre @ mention lit i @ post)"
    unfolding list_all_iff by blast
  then show ?thesis by (simp add: idMatcher_exec_eq is_id_def)
qed

text \<open>
  C10. The mention patterns are not anchored. When the consumed string holds a
  well-formed mention of the resolver's kind anywhere, the resolver looks up by the ID
  of a mention embedded in the string (the leftmost one; it is the given mention when no
  \<open><\<close> stands before it): \<open>resolveUser\<close> in the client's users, \<open>resolveChannel\<close>
  through the client's \<open>getChannel\<close>, \<open>resolveRole\<close> in the guild's roles (once its
  guild test has passed). A bare ID, in contrast, is not recognised with other text
  around it.
\<close>

theorem mention_recognised_anywhere:
  assumes "is_id i" and "fst (consume consumeRest p) = Some s"
  shows
    "(s = pre @ mention (js ''<@'') i @ post \<or> s = pre @ mention (js ''<@!'') i @ post \<longrightarrow>
        (\<exists>i'. is_id i'
           \<and> (sublist (mention (js ''<@'') i') s \<or> sublist (mention (js ''<@!'') i') s)
           \<and> (0x3C \<notin> set pre \<longrightarrow> i' = i)
           \<and> fst (resolveUser consumeRest p) = coll_get (users (bot' p)) i'))
     \<and> (s = pre @ mention (js ''<#'') i @ post \<longrightarrow>
        (\<exists>i'. is_id i' \<and> sublist (mention (js ''<#'') i') s
           \<and> (0x3C \<notin> set pre \<longrightarrow> i' = i)
           \<and> fst (resolveChannel consumeRest p) = getChannel (bot' p) i'))
     \<and> (s = pre @ mention (js ''<@&'') i @ post \<longrightarrow>
        (\<exists>i'. is_id i' \<and> sublist (mention (js ''<@&'') i') s
           \<and> (0x3C \<notin> set pre \<longrightarrow> i' = i)
           \<and> fst (resolveRole consumeRest p) =
               (case channel_guild (msg p) of
                  None \<Rightarrow> None
                | Some g \<Rightarrow> coll_get (roles g) i')))
     \<and> (\<not> list_all is_digit (pre @ post) \<longrightarrow> idMatcher_exec (pre @ i @ post) = None)"
proof (intro conjI impI)
  assume a: "s = pre @ mention (js ''<@'') i @ post \<or> s = pre @ mention (js ''<@!'') i @ post"
  then obtain m where m: "m = mention (js ''<@'') i \<or> m = mention (js ''<@!'') i" "s = pre @ m @ post"
    by auto
  from user_exec_finds_mention [OF assms(1) m(1), of pre post] obtain m' i' where
    f: "is_id i'" "m' = mention (js ''<@'') i' \<or> m' = mention (js ''<@!'') i'"
      "sublist m' s" "0x3C \<notin> set pre \<longrightarrow> i' = i" "userMentionMatcher_exec s = Some (m', i')"
    using m(2) by auto
  have n: "idMatcher_exec s = None" "s \<noteq> []"
    using a mention_not_id [of "js ''<@''" pre i post] mention_not_id [of "js ''<@!''" pre i post]
    by (auto simp add: js_def mention_def)
  have "fst (resolveUser consumeRest p) = coll_get (users (bot' p)) i'"
    using assms(2) n f(5) by (simp add: resolveUser_unfold or_else_def)
  with f show "\<exists>i'. is_id i'
           \<and> (sublist (mention (js ''<@'') i') s \<or> sublist (mention (js ''<@!'') i') s)
           \<and> (0x3C \<notin> set pre \<longrightarrow> i' = i)
           \<and> fst (resolveUser consumeRest p) = coll_get (users (bot' p)) i'"
    by auto
next
  assume a: "s = pre @ mention (js ''<#'') i @ post"
  have l: "hd (js ''<#'') = 0x3C" "js ''<#'' \<noteq> []" by (simp_all add: js_def)
  from exec_finds_mention [OF assms(1) l, of pre post] obtain i' where
    f: "is_id i'" "sublist (mention (js ''<#'') i') s" "0x3C \<notin> set pre \<longrightarrow> i' = i"
      "regex_exec (match_lit_id_gt (js ''<#'')) s = Some (mention (js ''<#'') i', i')"
    using a by auto
  have h: "channelMention_at = match_lit_id_gt (js ''<#'')"
    by (rule ext) (simp add: channelMention_at_def)
  have n: "idMatcher_exec s = None" "s \<noteq> []"
    using a mention_not_id [OF l, of pre i post] by (auto simp add: js_def mention_def)
  have "fst (resolveChannel consumeRest p) = getChannel (bot' p) i'"
    using assms(2) n f(4)
    by (simp add: resolveChannel_unfold or_else_def channelMentionMatcher_exec_def h)
  with f show "\<exists>i'. is_id i' \<and> sublist (mention (js ''<#'') i') s
           \<and> (0x3C \<notin> set pre \<longrightarrow> i' = i)
           \<and> fst (resolveChannel consumeRest p) = getChannel (bot' p) i'"
    by auto
next
  assume a: "s = pre @ mention (js ''<@&'') i @ post"
  have l: "hd (js ''<@&'') = 0x3C" "js ''<@&'' \<noteq> []" by (simp_all add: js_def)
  from exec_finds_mention [OF assms(1) l, of pre post] obtain i' where
    f: "is_id i'" "sublist (mention (js ''<@&'') i') s" "0x3C \<notin> set pre \<longrightarrow> i' = i"
      "regex_exec (match_lit_id_gt (js ''<@&'')) s = Some (mention (js ''<@&'') i', i')"
    using a by auto
  have h: "roleMention_at = match_lit_id_gt (js ''<@&'')"
    by (rule ext) (simp add: roleMention_at_def)
  have n: "idMatcher_exec s = None" "s \<noteq> []"
    using a mention_not_id [OF l, of pre i post] by (auto simp add: js_def mention_def)
  have "fst (resolveRole consumeRest p) =
               (case channel_guild (msg p) of
                  None \<Rightarrow> None
                | Some g \<Rightarrow> coll_get (roles g) i')"
    using assms(2) n f(4)
    by (simp add: resolveRole_unfold or_else_def roleMentionMatcher_exec_def h split: option.splits)
  with f show "\<exists>i'. is_id i' \<and> sublist (mention (js ''<@&'') i') s
           \<and> (0x3C \<notin> set pre \<longrightarrow> i' = i)
           \<and> fst (resolveRole consumeRest p) =
               (case channel_guild (msg p) of
                  None \<Rightarrow> None
                | Some g \<Rightarrow> coll_get (roles g) i')"
    by auto
next
  assume "\<not> list_all is_digit (pre @ post)"
  then show "idMatcher_exec (pre @ i @ post) = None"
    by (auto simp add: idMatcher_exec_eq is_id_def)
qed

theorem mention_recognised_anywhere_witness:
  "fst (resolveUser False (new_ArgParser direct_message [js ''abc<@123456789012345678>def'']))
     = Some jane
   \<and> fst (resolveChannel False (new_ArgParser direct_message [js ''see<#222222222222222222>!'']))
     = Some general
   \<and> fst (resolveRole False (new_ArgParser guild_message [js ''x<@&333333333333333333>y'']))
     = Some admin"
proof -
  have c: "fst (consume False (new_ArgParser m [t])) = Some t" for m t
    by (simp add: consume_one new_ArgParser_def)
  have i: "is_id (js ''123456789012345678'')" "is_id (js ''222222222222222222'')"
    "is_id (js ''333333333333333333'')"
    by (simp_all add: js_def is_digit_def is_id_def)
  have "fst (resolveUser False (new_ArgParser direct_message [js ''abc<@123456789012345678>def'']))
     = coll_get (users example_client) (js ''123456789012345678'')"
    using mention_recognised_anywhere [OF i(1) c [of direct_message "js ''abc<@123456789012345678>def''"],
        where pre = "js ''abc''" and post = "js ''def''"]
    by (auto simp add: mention_def js_def new_ArgParser_def direct_message_def)
  moreover have "fst (resolveChannel False (new_ArgParser direct_message [js ''see<#222222222222222222>!'']))
     = getChannel example_client (js ''222222222222222222'')"
    using mention_recognised_anywhere [OF i(2) c [of direct_message "js ''see<#222222222222222222>!''"],
        where pre = "js ''see''" and post = "js ''!''"]
    by (auto simp add: mention_def js_def new_ArgParser_def direct_message_def)
  moreover have "fst (resolveRole False (new_ArgParser guild_message [js ''x<@&333333333333333333>y'']))
     = coll_get (roles example_guild) (js ''333333333333333333'')"
    using mention_recognised_anywhere [OF i(3) c [of guild_message "js ''x<@&333333333333333333>y''"],
        where pre = "js ''x''" and post = "js ''y''"]
    by (auto simp add: mention_def js_def new_ArgParser_def guild_message_def)
  ultimately show ?thesis
    by (simp add: example_client_def example_guild_def coll_get_def js_def)
qed

section \<open>Reading and dropping by index\<close>

text \<open>
  C2. \<open>getArgument\<close> is documented to return the argument at the index, but it calls
  \<open>slice(index, 1)\<close>, whose second argument is an end position: at index 1 of a list of
  two tokens the slice is empty and the call returns the empty string, not the second
  token.
\<close>

theorem getArgument_index_one:
  "getArgument 1 (new_ArgParser direct_message [js ''a'', js ''b'']) = []"
  by (simp add: getArgument_def new_ArgParser_def js_slice_def relative_index_def js_join_def)

lemma getArgument_positive: "1 \<le> i \<Longrightarrow> getArgument i p = []"
  by (simp add: getArgument_def js_slice_def relative_index_def js_join_def Let_def)

text \<open>
  C4, as the claim has it, fails: an index of \<open>-1\<close> names no position of a list of two
  tokens, yet \<open>drop\<close> removes the last token.
\<close>

theorem drop_arg_negative_counterexample:
  "\<not> (0 \<le> (- 1 :: int)
       \<and> (- 1 :: int) < int (length (args (new_ArgParser direct_message [js ''a'', js ''b'']))))
   \<and> args (drop_arg (- 1) (new_ArgParser direct_message [js ''a'', js ''b''])) = [js ''a'']
   \<and> length (args (drop_arg (- 1) (new_ArgParser direct_message [js ''a'', js ''b''])))
       \<noteq> length (args (new_ArgParser direct_message [js ''a'', js ''b'']))"
  by (simp add: drop_arg_def js_splice_def relative_index_def new_ArgParser_def)

text \<open>
  C4, amended. With \<open>n\<close> tokens in the list: an index \<open>i \<ge> n\<close> removes nothing; an index
  \<open>0 \<le> i < n\<close> removes exactly the token at \<open>i\<close>; a negative index counts from the end, so
  \<open>-n \<le> i < 0\<close> removes the token at \<open>n + i\<close>, and an index below \<open>-n\<close> removes the first
  token (nothing when the list is empty). Nothing else of the parser changes.
\<close>

theorem drop_arg_index:
  "args (drop_arg i p) =
     (let n = int (length (args p)) in
      if n \<le> i then args p
      else if 0 \<le> i then take (nat i) (args p) @ drop (Suc (nat i)) (args p)
      else if - n \<le> i then take (nat (n + i)) (args p) @ drop (Suc (nat (n + i))) (args p)
      else drop 1 (args p))
   \<and> msg (drop_arg i p) = msg p \<and> bot' (drop_arg i p) = bot' p"
  by (auto simp add: drop_arg_def js_splice_def relative_index_def Let_def min_def max_def)

theorem drop_arg_index_witness:
  "args (drop_arg 1 (new_ArgParser direct_message [js ''a'', js ''b'', js ''c'']))
     = [js ''a'', js ''c'']
   \<and> args (drop_arg 3 (new_ArgParser direct_message [js ''a'', js ''b'', js ''c'']))
     = [js ''a'', js ''b'', js ''c'']
   \<and> args (drop_arg (- 1) (new_ArgParser direct_message [js ''a'', js ''b'', js ''c'']))
     = [js ''a'', js ''b'']"
  using drop_arg_index [of 1 "new_ArgParser direct_message [js ''a'', js ''b'', js ''c'']"]
    drop_arg_index [of 3 "new_ArgParser direct_message [js ''a'', js ''b'', js ''c'']"]
    drop_arg_index [of "- 1" "new_ArgParser direct_message [js ''a'', js ''b'', js ''c'']"]
  by (simp add: new_ArgParser_def)

section \<open>Replacing the first occurrence\<close>

lemma get_substitution_plain: "0x24 \<notin> set r \<Longrightarrow> get_substitution a m b r = r"
  by (induction a m b r rule: get_substitution.induct) auto

lemma index_of_SomeD: "index_of pat s = Some p \<Longrightarrow> p \<le> length s \<and> prefix pat (drop p s)"
proof (induction s arbitrary: p)
  case Nil
  then show ?case by (simp split: if_splits)
next
  case (Cons c s)
  then show ?case by (cases "prefix pat (c # s)") auto
qed

lemma index_of_first:
  "index_of pat s = Some p \<longleftrightarrow>
     p \<le> length s \<and> prefix pat (drop p s) \<and> (\<forall>q<p. \<not> prefix pat (drop q s))"
proof (induction s arbitrary: p)
  case Nil
  then show ?case by auto
next
  case (Cons c s)
  show ?case
  proof (cases "prefix pat (c # s)")
    case True
    then show ?thesis by (cases p) auto
  next
    case False
    show ?thesis
    proof (cases p)
      case 0
      with False show ?thesis by simp
    next
      case (Suc p')
      have "(\<forall>q<Suc p'. \<not> prefix pat (drop q (c # s))) \<longleftrightarrow> (\<forall>q<p'. \<not> prefix pat (drop q s))"
        using False by (auto simp add: less_Suc_eq_0_disj)
      with False Suc show ?thesis by (auto simp add: Cons.IH)
    qed
  qed
qed

lemma ins_0: "ins 0 t = ZWSP # t"
  by (simp add: ins_def)

lemma ins_Suc: "ins (Suc k) (c # cs) = c # ins k cs"
  by (simp add: ins_def)

lemma prefix_take_iff: "prefix h xs \<longleftrightarrow> take (length h) xs = h"
  by (metis append_eq_conv_conj prefix_def append_take_drop_id)

lemma take_ins: "n \<le> k \<Longrightarrow> k \<le> length t \<Longrightarrow> take n (ins k t) = take n t"
  by (simp add: ins_def min_def)

lemma not_prefix_ins:
  assumes "ZWSP \<notin> set h" and "k < length h" and "k \<le> length t"
  shows "\<not> prefix h (ins k t)"
proof
  assume "prefix h (ins k t)"
  then obtain z where z: "ins k t = h @ z" by (auto simp add: prefix_def)
  have "ins k t ! k = ZWSP" using assms(3) by (simp add: ins_def nth_append)
  moreover have "(h @ z) ! k = h ! k" using assms(2) by (simp add: nth_append)
  ultimately have "h ! k = ZWSP" using z by simp
  then show False using assms(1,2) by (metis nth_mem)
qed

lemma index_of_ins:
  assumes "ZWSP \<notin> set h" and "h \<noteq> []" and "k \<le> length t"
    and "\<And>q. q < k \<Longrightarrow> k < q + length h \<Longrightarrow> \<not> prefix h (drop q t)"
  shows "index_of h (ins k t) = map_option (\<lambda>q. if q < k then q else Suc q) (index_of h t)"
  using assms(3,4)
proof (induction t arbitrary: k)
  case Nil
  then have "k = 0" by simp
  moreover have "\<not> prefix h [ZWSP]"
    using assms(1,2) by (cases h) (auto simp add: prefix_def Cons_eq_append_conv)
  ultimately show ?case using assms(2) by (simp add: ins_0)
next
  case (Cons c cs)
  show ?case
  proof (cases k)
    case 0
    have "\<not> prefix h (ZWSP # c # cs)"
      using assms(1,2) by (cases h) auto
    with 0 show ?thesis by (simp add: ins_0 option.map_comp comp_def)
  next
    case (Suc k')
    have ns: "\<not> prefix h (drop q cs)" if "q < k'" "k' < q + length h" for q
      using Cons.prems(2) [of "Suc q"] that Suc by simp
    have ih: "index_of h (ins k' cs) = map_option (\<lambda>q. if q < k' then q else Suc q) (index_of h cs)"
      using Cons.prems(1) Suc ns by (intro Cons.IH) simp_all
    have same: "prefix h (c # ins k' cs) \<longleftrightarrow> prefix h (c # cs)"
    proof (cases "length h \<le> k")
      case True
      have "take (length h) (ins k (c # cs)) = take (length h) (c # cs)"
        using True Cons.prems(1) by (rule take_ins)
      then show ?thesis by (simp add: prefix_take_iff [of h] Suc ins_Suc)
    next
      case False
      then have "\<not> prefix h (drop 0 (c # cs))"
        using Cons.prems(2) [of 0] Suc by simp
      moreover have "\<not> prefix h (ins k (c # cs))"
        using assms(1) False Cons.prems(1) by (intro not_prefix_ins) simp_all
      ultimately show ?thesis by (simp add: Suc ins_Suc)
    qed
    show ?thesis
      using same ih by (simp add: Suc ins_Suc option.map_comp comp_def if_distrib [of Suc])
  qed
qed

lemma js_replace_absent: "index_of pat t = None \<Longrightarrow> js_replace t pat r = t"
  by (simp add: js_replace_def)

lemma js_replace_after_first_char:
  assumes "index_of (c # r) t = Some p" and "0x24 \<notin> set (c # ZWSP # r)"
  shows "js_replace t (c # r) (c # ZWSP # r) = ins (Suc p) t"
proof -
  from assms(1) have "prefix (c # r) (drop p t)" by (simp add: index_of_SomeD)
  then obtain z where z: "drop p t = (c # r) @ z" by (auto simp add: prefix_def)
  then have t: "t = take p t @ (c # r) @ z" by (metis append_take_drop_id)
  have "p \<le> length t" using assms(1) by (simp add: index_of_SomeD)
  then have lp: "length (take p t) = p" by simp
  have d: "drop (p + length (c # r)) t = z"
    using z by (metis append_eq_conv_conj drop_drop add.commute)
  have "ins (Suc p) (take p t @ (c # r) @ z) = take p t @ (c # ZWSP # r) @ z"
    using lp by (simp add: ins_def)
  then have "ins (Suc p) t = take p t @ (c # ZWSP # r) @ z" using t by simp
  moreover have "js_replace t (c # r) (c # ZWSP # r) = take p t @ (c # ZWSP # r) @ z"
    using assms d by (simp add: js_replace_def get_substitution_plain Let_def del: get_substitution.simps)
  ultimately show ?thesis by simp
qed

lemma no_straddle:
  assumes "prefix (a # e) (drop p t)" and "prefix (a # h) (drop q t)"
    and "a \<notin> set h" and "e \<noteq> []" and "h \<noteq> []" and "hd e \<noteq> hd h"
    and "q < Suc p" and "Suc p < q + length (a # h)"
  shows False
proof (cases "q = p")
  case True
  from assms(1,2) True obtain z z' where "(a # e) @ z = (a # h) @ z'"
    unfolding prefix_def by metis
  then have "hd (e @ z) = hd (h @ z')" by simp
  then show False using assms(4,5,6) by simp
next
  case False
  define j where "j = p - q"
  have j: "0 < j" "j < length (a # h)" "p = q + j"
    using False assms(7,8) by (simp_all add: j_def)
  from assms(2) obtain z' where z': "drop q t = (a # h) @ z'" by (auto simp add: prefix_def)
  have "drop p t = drop j (drop q t)" using j(3) by (simp add: add.commute)
  also have "\<dots> = drop j (a # h) @ z'"
    using j(2) unfolding z' by (simp only: drop_append) simp
  finally have "hd (drop p t) = hd (drop j (a # h))"
    using j(2) by simp
  moreover have "hd (drop p t) = a" using assms(1) by (auto simp add: prefix_def)
  moreover have "hd (drop j (a # h)) = (a # h) ! j" using j(2) by (simp add: hd_drop_conv_nth)
  moreover have "(a # h) ! j \<in> set h" using j(1,2) by (cases j) simp_all
  ultimately show False using assms(3) by simp
qed

lemma zb_cong:
  "(\<And>i. k \<le> i \<Longrightarrow> i \<in> P \<longleftrightarrow> i \<in> Q) \<Longrightarrow> zwsp_before P k t = zwsp_before Q k t"
proof (induction t arbitrary: k)
  case Nil
  then show ?case by simp
next
  case (Cons c cs)
  have "zwsp_before P (Suc k) cs = zwsp_before Q (Suc k) cs"
    by (rule Cons.IH) (simp add: Cons.prems)
  then show ?case using Cons.prems [of k] by simp
qed

lemma zb_none: "(\<And>i. k \<le> i \<Longrightarrow> i \<notin> P) \<Longrightarrow> zwsp_before P k t = t"
proof (induction t arbitrary: k)
  case Nil
  then show ?case by simp
next
  case (Cons c cs)
  have "zwsp_before P (Suc k) cs = cs"
    by (rule Cons.IH) (simp add: Cons.prems)
  then show ?case using Cons.prems [of k] by simp
qed

lemma zb_one: "a < length t \<Longrightarrow> zwsp_before {k + a} k t = ins a t"
proof (induction t arbitrary: k a)
  case Nil
  then show ?case by simp
next
  case (Cons c cs)
  show ?case
  proof (cases a)
    case 0
    have "zwsp_before {k} (Suc k) cs = cs" by (rule zb_none) simp
    with 0 show ?thesis by (simp add: ins_0 ZWSP_def)
  next
    case (Suc a')
    then have "zwsp_before {Suc k + a'} (Suc k) cs = ins a' cs"
      using Cons.prems by (intro Cons.IH) simp
    with Suc show ?thesis by (simp add: ins_Suc)
  qed
qed

lemma zb_two: "a < b \<Longrightarrow> b < length t \<Longrightarrow> zwsp_before {k + a, k + b} k t = ins (Suc b) (ins a t)"
proof (induction t arbitrary: k a b)
  case Nil
  then show ?case by simp
next
  case (Cons c cs)
  from Cons.prems obtain b' where b: "b = Suc b'" by (cases b) auto
  show ?case
  proof (cases a)
    case 0
    have "zwsp_before {k, k + Suc b'} (Suc k) cs = zwsp_before {Suc k + b'} (Suc k) cs"
      by (rule zb_cong) auto
    also have "\<dots> = ins b' cs" using Cons.prems b by (intro zb_one) simp
    finally show ?thesis using 0 b by (simp add: ins_0 ins_Suc ZWSP_def)
  next
    case (Suc a')
    have "zwsp_before {Suc k + a', Suc k + b'} (Suc k) cs = ins (Suc b') (ins a' cs)"
      using Cons.prems b Suc by (intro Cons.IH) simp_all
    then show ?thesis using Suc b by (simp add: ins_Suc)
  qed
qed

lemma ins_commute: "a \<le> b \<Longrightarrow> b \<le> length t \<Longrightarrow> ins a (ins b t) = ins (Suc b) (ins a t)"
proof (induction t arbitrary: a b)
  case Nil
  then show ?case by (simp add: ins_def)
next
  case (Cons c cs)
  show ?case
  proof (cases a)
    case 0
    then show ?thesis by (simp add: ins_0 ins_Suc)
  next
    case (Suc a')
    with Cons.prems obtain b' where b: "b = Suc b'" by (cases b) auto
    have "ins a' (ins b' cs) = ins (Suc b') (ins a' cs)"
      using Cons.prems Suc b by (intro Cons.IH) simp_all
    then show ?thesis using Suc b by (simp add: ins_Suc)
  qed
qed

section \<open>Cleaning mentions\<close>

text \<open>
  C1. Outside a guild the channel loop of \<open>cleanContent\<close> reads \<open>.channels\<close> of an
  undefined guild as soon as the string holds a channel mention: the call throws a
  TypeError instead of returning. The user loop just above it tests the guild first.
\<close>

theorem cleanContent_throws_without_guild:
  "fst (cleanContent False (new_ArgParser direct_message [js ''<#123456789012345678>'']))
     = Some (Inl TypeError)"
  by code_simp

lemma occurrence_inside:
  assumes "index_of (a # r) t = Some p" and "r \<noteq> []"
  shows "Suc p < length t"
proof -
  from assms(1) have "prefix (a # r) (drop p t)" by (simp add: index_of_SomeD)
  then have "length (a # r) \<le> length (drop p t)" by (rule prefix_length_le)
  then show ?thesis using assms(2) by (cases r) simp_all
qed

lemma two_literals:
  fixes e h :: jsstring and a :: jschar
  assumes "0x24 \<notin> set (a # ZWSP # e)" and "0x24 \<notin> set (a # ZWSP # h)"
    and "ZWSP \<notin> set (a # h)" and "a \<notin> set h" and "e \<noteq> []" and "h \<noteq> []" and "hd e \<noteq> hd h"
  shows "js_replace (js_replace t (a # e) (a # ZWSP # e)) (a # h) (a # ZWSP # h) =
    zwsp_before (Suc ` (set_option (index_of (a # e) t) \<union> set_option (index_of (a # h) t))) 0 t"
proof (cases "index_of (a # e) t")
  case None
  then have u: "js_replace t (a # e) (a # ZWSP # e) = t" by (rule js_replace_absent)
  show ?thesis
  proof (cases "index_of (a # h) t")
    case None
    have "zwsp_before {} 0 t = t" by (rule zb_none) simp
    with None \<open>index_of (a # e) t = None\<close> u show ?thesis by (simp add: js_replace_absent)
  next
    case (Some q)
    have "zwsp_before {0 + Suc q} 0 t = ins (Suc q) t"
      using Some assms(6) by (intro zb_one occurrence_inside)
    with Some \<open>index_of (a # e) t = None\<close> u show ?thesis
      by (simp add: js_replace_after_first_char [OF Some assms(2)])
  qed
next
  case (Some p)
  have pe: "prefix (a # e) (drop p t)" using Some by (simp add: index_of_SomeD)
  have pl: "Suc p < length t" using Some assms(5) by (rule occurrence_inside)
  have u: "js_replace t (a # e) (a # ZWSP # e) = ins (Suc p) t"
    using Some assms(1) by (rule js_replace_after_first_char)
  have iu: "index_of (a # h) (ins (Suc p) t) =
      map_option (\<lambda>q. if q < Suc p then q else Suc q) (index_of (a # h) t)"
  proof (rule index_of_ins)
    show "ZWSP \<notin> set (a # h)" by (rule assms(3))
    show "a # h \<noteq> []" by simp
    show "Suc p \<le> length t" using pl by simp
    fix q assume "q < Suc p" "Suc p < q + length (a # h)"
    then show "\<not> prefix (a # h) (drop q t)"
      using no_straddle [OF pe _ assms(4,5,6,7)] by blast
  qed
  show ?thesis
  proof (cases "index_of (a # h) t")
    case None
    have "zwsp_before {0 + Suc p} 0 t = ins (Suc p) t"
      using pl by (rule zb_one)
    with None Some u iu show ?thesis by (simp add: js_replace_absent)
  next
    case (Some q)
    have ql: "Suc q < length t" using Some assms(6) by (rule occurrence_inside)
    have pq: "q \<noteq> p"
    proof
      assume "q = p"
      then have "\<not> prefix (a # h) (drop q t)"
        using no_straddle [OF pe _ assms(4,5,6,7), of q] assms(6) by (cases h) auto
      then show False using Some by (simp add: index_of_SomeD)
    qed
    show ?thesis
    proof (cases "q < p")
      case True
      then have i: "index_of (a # h) (ins (Suc p) t) = Some q" using iu Some by simp
      have "js_replace (ins (Suc p) t) (a # h) (a # ZWSP # h) = ins (Suc q) (ins (Suc p) t)"
        using i assms(2) by (rule js_replace_after_first_char)
      also have "\<dots> = ins (Suc (Suc p)) (ins (Suc q) t)"
        using True pl by (intro ins_commute) simp_all
      also have "\<dots> = zwsp_before {0 + Suc q, 0 + Suc p} 0 t"
        using True pl by (intro zb_two [symmetric]) simp_all
      finally show ?thesis
        using Some \<open>index_of (a # e) t = Some p\<close> u by (simp add: insert_commute)
    next
      case False
      with pq have lt: "p < q" by simp
      then have i: "index_of (a # h) (ins (Suc p) t) = Some (Suc q)" using iu Some by simp
      have "js_replace (ins (Suc p) t) (a # h) (a # ZWSP # h) = ins (Suc (Suc q)) (ins (Suc p) t)"
        using i assms(2) by (rule js_replace_after_first_char)
      also have "\<dots> = zwsp_before {0 + Suc p, 0 + Suc q} 0 t"
        using lt ql by (intro zb_two [symmetric]) simp_all
      finally show ?thesis
        using Some \<open>index_of (a # e) t = Some p\<close> u by (simp add: insert_commute)
    qed
  qed
qed

lemma clean_everyone_here_eq:
  "clean_everyone_here t =
     zwsp_before (Suc ` (set_option (index_of (js ''@everyone'') t)
                        \<union> set_option (index_of (js ''@here'') t))) 0 t"
proof -
  have l: "js ''@everyone'' = 0x40 # js ''everyone''" "js ''@here'' = 0x40 # js ''here''"
    "js ''@'' @ [ZWSP] @ js ''everyone'' = 0x40 # ZWSP # js ''everyone''"
    "js ''@'' @ [ZWSP] @ js ''here'' = 0x40 # ZWSP # js ''here''"
    by (simp_all add: js_def)
  show ?thesis
    unfolding clean_everyone_here_def l
    by (rule two_literals) (simp_all add: js_def ZWSP_def)
qed

lemma clean_mentions_args: "clean_mentions (p\<lparr>args := x\<rparr>) = clean_mentions p"
proof -
  have "user_formatted (p\<lparr>args := x\<rparr>) = user_formatted p"
    "channel_formatted (p\<lparr>args := x\<rparr>) = channel_formatted p"
    "role_formatted (p\<lparr>args := x\<rparr>) = role_formatted p"
    by (rule ext, simp add: user_formatted_def channel_formatted_def role_formatted_def
        split: option.splits)+
  then show ?thesis by (intro ext) (simp add: clean_mentions_def)
qed

lemma first_occurrences_index_of: "first_occurrences lit t = set_option (index_of lit t)"
  by (auto simp add: first_occurrences_def index_of_first [symmetric])

text \<open>
  C6. Lines 137 to 139 turn every string \<open>a\<close> into \<open>a\<close> with one zero-width space inserted
  right after the \<open>@\<close> of the first occurrence of \<open>@everyone\<close> in \<open>a\<close> and one right after
  the \<open>@\<close> of the first occurrence of \<open>@here\<close> in \<open>a\<close>, and nothing else changed: at most
  one insertion for each literal. And every \<open>cleanContent\<close> call ends in one of four ways:
  it returns \<open>null\<close> when the consumed string is empty or missing; it does not return, or
  it throws, when the mention loops do; otherwise the loops end with a string \<open>t\<close> and the
  call returns \<open>t\<close> with exactly these insertions. The witness has the specification's
  example, \<open>cleanContent(true)\<close> on \<open>@everyone\<close>, \<open>ping\<close>.
\<close>

theorem cleanContent_everyone_here:
  "clean_everyone_here a =
     zwsp_before (Suc ` (first_occurrences (js ''@everyone'') a
                         \<union> first_occurrences (js ''@here'') a)) 0 a
   \<and> fst (cleanContent consumeRest p) =
     (case fst (consume consumeRest p) of
        None \<Rightarrow> Some (Inr None)
      | Some s \<Rightarrow>
          if s = [] then Some (Inr None)
          else
            (case clean_mentions p s of
               None \<Rightarrow> None
             | Some (Inl e) \<Rightarrow> Some (Inl e)
             | Some (Inr t) \<Rightarrow>
                 Some (Inr (Some (zwsp_before
                   (Suc ` (first_occurrences (js ''@everyone'') t
                           \<union> first_occurrences (js ''@here'') t)) 0 t)))))"
proof
  show "clean_everyone_here a =
     zwsp_before (Suc ` (first_occurrences (js ''@everyone'') a
                         \<union> first_occurrences (js ''@here'') a)) 0 a"
    by (simp only: clean_everyone_here_eq first_occurrences_index_of)
next
  obtain a' p' where c: "consume consumeRest p = (a', p')" by (cases "consume consumeRest p")
  from c have "p' = p\<lparr>args := if consumeRest then [] else drop 1 (args p)\<rparr>"
    using consumed_parser [of consumeRest p] by simp
  then have cm: "clean_mentions p' = clean_mentions p"
    by (simp only: clean_mentions_args)
  show "fst (cleanContent consumeRest p) =
     (case fst (consume consumeRest p) of
        None \<Rightarrow> Some (Inr None)
      | Some s \<Rightarrow>
          if s = [] then Some (Inr None)
          else
            (case clean_mentions p s of
               None \<Rightarrow> None
             | Some (Inl e) \<Rightarrow> Some (Inl e)
             | Some (Inr t) \<Rightarrow>
                 Some (Inr (Some (zwsp_before
                   (Suc ` (first_occurrences (js ''@everyone'') t
                           \<union> first_occurrences (js ''@here'') t)) 0 t)))))"
    by (simp add: cleanContent_def c cm falsy_def and_then_def clean_everyone_here_eq
        first_occurrences_index_of split: option.splits sum.splits)
qed

theorem cleanContent_everyone_here_witness:
  "fst (cleanContent True (new_ArgParser direct_message [js ''@everyone'', js ''ping'']))
     = Some (Inr (Some (js ''@'' @ [0x200B] @ js ''everyone ping'')))
   \<and> clean_everyone_here (js ''x@here @everyone @everyone @here'')
     = js ''x@'' @ [0x200B] @ js ''here @'' @ [0x200B] @ js ''everyone @everyone @here''"
proof -
  let ?p = "new_ArgParser direct_message [js ''@everyone'', js ''ping'']"
  have c: "fst (consume True ?p) = Some (js ''@everyone ping'')"
    by (simp add: consume_rest new_ArgParser_def js_join_def js_def)
  have n: "js ''@everyone ping'' \<noteq> []" by (simp add: js_def)
  have m: "clean_mentions ?p (js ''@everyone ping'') = Some (Inr (js ''@everyone ping''))"
    by code_simp
  have z: "zwsp_before (Suc ` (first_occurrences (js ''@everyone'') (js ''@everyone ping'')
        \<union> first_occurrences (js ''@here'') (js ''@everyone ping''))) 0 (js ''@everyone ping'')
      = js ''@'' @ [0x200B] @ js ''everyone ping''"
    by (simp add: first_occurrences_index_of js_def)
  have "fst (cleanContent True ?p) = Some (Inr (Some (js ''@'' @ [0x200B] @ js ''everyone ping'')))"
    using cleanContent_everyone_here [of "[]" True ?p]
    by (simp only: c m n z option.case sum.case if_False)
  moreover have "clean_everyone_here (js ''x@here @everyone @everyone @here'')
     = js ''x@'' @ [0x200B] @ js ''here @'' @ [0x200B] @ js ''everyone @everyone @here''"
    using cleanContent_everyone_here [of "js ''x@here @everyone @everyone @here''" True ?p]
    by (simp add: first_occurrences_index_of js_def)
  ultimately show ?thesis by simp
qed

section \<open>The mention loops\<close>

lemma mention_shape:
  assumes "lit \<in> set openers" and "is_id i"
  shows "\<exists>o' w. mention lit i = 0x3C # o' # w \<and> (o' = 0x40 \<or> o' = 0x23) \<and> w \<noteq> []
           \<and> (is_digit (hd w) \<or> hd w = 0x21 \<or> hd w = 0x26)
           \<and> 0x40 \<notin> set w \<and> 0x23 \<notin> set w \<and> 0x3C \<notin> set w"
proof -
  from assms(2) have d: "\<And>x. x \<in> set i \<Longrightarrow> is_digit x" and n: "i \<noteq> []"
    by (auto simp add: is_id_def list_all_iff)
  have nd: "\<not> is_digit 0x40" "\<not> is_digit 0x23" "\<not> is_digit 0x3C"
    by (simp_all add: is_digit_def)
  have s: "0x40 \<notin> set i" "0x23 \<notin> set i" "0x3C \<notin> set i"
    using d nd by blast+
  have h: "is_digit (hd i)" using d n by simp
  from assms(1) consider "lit = js ''<@''" | "lit = js ''<@!''" | "lit = js ''<#''" | "lit = js ''<@&''"
    by (auto simp add: openers_def)
  then show ?thesis
  proof cases
    case 1
    then show ?thesis using s h n by (simp add: mention_def js_def)
  next
    case 2
    then show ?thesis using s h n by (simp add: mention_def js_def)
  next
    case 3
    then show ?thesis using s h n by (simp add: mention_def js_def)
  next
    case 4
    then show ?thesis using s h n by (simp add: mention_def js_def)
  qed
qed

lemma sublist_starts_in:
  assumes "sublist m r" and "m \<noteq> []"
  shows "hd m \<in> set r"
  using assms by (metis hd_in_set set_mono_sublist subsetD)

lemma no_new_mention:
  assumes lit: "lit \<in> set openers" and r: "sign_then_inert r"
    and c: "contains_mention lit (pre @ r @ post)"
  shows "contains_mention lit pre \<or> contains_mention lit post"
proof -
  from c obtain i where i: "is_id i" "sublist (mention lit i) (pre @ r @ post)"
    by (auto simp add: contains_mention_def)
  define M where "M = mention lit i"
  from mention_shape [OF lit i(1)] obtain o' w where
    M: "M = 0x3C # o' # w" and o': "o' = 0x40 \<or> o' = 0x23" and w: "w \<noteq> []"
    and hw: "is_digit (hd w) \<or> hd w = 0x21 \<or> hd w = 0x26"
    and nw: "0x40 \<notin> set w" "0x23 \<notin> set w" "0x3C \<notin> set w"
    unfolding M_def by blast
  from r obtain c n where rn: "r = c # n" "c = 0x40 \<or> c = 0x23" "inert n"
    by (cases r) (auto simp add: sign_then_inert_def)
  have ltr: "0x3C \<notin> set r" using rn by (auto simp add: inert_def)
  have nh: "n \<noteq> []" "\<not> is_digit (hd n)" "hd n \<noteq> 0x21" "hd n \<noteq> 0x26"
    using rn(3) by (simp_all add: inert_def)
  have hdM: "M \<noteq> []" "hd M = 0x3C" using M by simp_all
  have in_pre: "sublist M pre \<Longrightarrow> ?thesis"
    using i(1) by (auto simp add: contains_mention_def M_def)
  have in_post: "sublist M post \<Longrightarrow> ?thesis"
    using i(1) by (auto simp add: contains_mention_def M_def)
  have not_from_r: False if "suffix M1 r" "M1 \<noteq> []" "prefix M1 M" for M1
  proof -
    have "hd M1 = 0x3C" using that(2,3) hdM by (auto simp add: prefix_def)
    then have "0x3C \<in> set M1" using that(2) by (metis hd_in_set)
    then show False using that(1) ltr by (metis set_mono_suffix subsetD)
  qed
  from i(2) have "sublist M (pre @ (r @ post))" by (simp add: M_def)
  then consider "sublist M pre" | "sublist M (r @ post)"
    | M1 M2 where "M = M1 @ M2" "suffix M1 pre" "prefix M2 (r @ post)" "M1 \<noteq> []" "M2 \<noteq> []"
    unfolding sublist_append [of M pre]
    by (metis append_Nil append_Nil2 prefix_imp_sublist suffix_imp_sublist)
  then show ?thesis
  proof cases
    case 1
    then show ?thesis by (rule in_pre)
  next
    case 2
    then consider "sublist M r" | "sublist M post"
      | M1 M2 where "M = M1 @ M2" "suffix M1 r" "prefix M2 post" "M1 \<noteq> []"
      unfolding sublist_append [of M r]
      by (metis append_Nil prefix_imp_sublist)
    then show ?thesis
    proof cases
      case 1
      then have "0x3C \<in> set r" using hdM sublist_starts_in by metis
      with ltr show ?thesis by simp
    next
      case 2
      then show ?thesis by (rule in_post)
    next
      case 3
      then have False using not_from_r [of M1] by (simp add: prefix_def)
      then show ?thesis ..
    qed
  next
    case 3
    from 3(3,5) rn(1) have h2: "hd M2 = c" by (cases M2) (auto simp add: prefix_def)
    from 3(1,4) M obtain M1' where m1: "M1 = 0x3C # M1'" "M1' @ M2 = o' # w"
      by (cases M1) auto
    show ?thesis
    proof (cases M1')
      case Nil
      with m1 have "M2 = o' # w" by simp
      with 3(3) rn(1) have "prefix w (n @ post)" by simp
      then have "hd w = hd n" using w nh(1) by (cases w; cases n) auto
      with hw nh show ?thesis by auto
    next
      case (Cons x xs)
      with m1 have "xs @ M2 = w" by simp
      then have "hd M2 \<in> set w" using 3(5) by (metis hd_in_set in_set_conv_decomp list.set_sel(1) Un_iff set_append)
      with h2 rn(2) nw show ?thesis by auto
    qed
  qed
qed

lemma index_of_sublist: "sublist m a \<Longrightarrow> index_of m a \<noteq> None"
proof (induction a)
  case Nil
  then show ?case by simp
next
  case (Cons c cs)
  then show ?case by (auto simp add: sublist_Cons_right)
qed

lemma js_replace_found:
  assumes "index_of m a = Some pos" and "0x24 \<notin> set r"
  shows "\<exists>pre post. a = pre @ m @ post \<and> js_replace a m r = pre @ r @ post"
proof -
  from assms(1) have "prefix m (drop pos a)" by (simp add: index_of_SomeD)
  then obtain z where z: "drop pos a = m @ z" by (auto simp add: prefix_def)
  then have a: "a = take pos a @ m @ z" by (metis append_take_drop_id)
  have d: "drop (pos + length m) a = z"
    using z by (metis append_eq_conv_conj drop_drop add.commute)
  have "js_replace a m r = take pos a @ r @ z"
    using assms d by (simp add: js_replace_def get_substitution_plain Let_def)
  with a show ?thesis by blast
qed

lemma inert_sign_chars: "sign_then_inert r \<Longrightarrow> 0x24 \<notin> set r \<and> 0x3C \<notin> set r"
  by (cases r) (auto simp add: sign_then_inert_def inert_def)

lemma contains_mention_left: "contains_mention lit pre \<Longrightarrow> contains_mention lit (pre @ x)"
  unfolding contains_mention_def by (metis sublist_append)

lemma contains_mention_right: "contains_mention lit post \<Longrightarrow> contains_mention lit (x @ post)"
  unfolding contains_mention_def by (metis sublist_append)

lemma replace_keeps_free:
  assumes "sign_then_inert r" and "lit \<in> set openers" and "\<not> contains_mention lit a"
  shows "\<not> contains_mention lit (js_replace a m r)"
proof (cases "index_of m a")
  case None
  then show ?thesis using assms(3) by (simp add: js_replace_absent)
next
  case (Some pos)
  from js_replace_found [OF Some] assms(1) obtain pre post where
    d: "a = pre @ m @ post" "js_replace a m r = pre @ r @ post"
    using inert_sign_chars by blast
  show ?thesis
  proof
    assume "contains_mention lit (js_replace a m r)"
    then have "contains_mention lit pre \<or> contains_mention lit post"
      unfolding d(2) by (rule no_new_mention [OF assms(2,1)])
    then have "contains_mention lit a"
      unfolding d(1) using contains_mention_left contains_mention_right by blast
    with assms(3) show False by simp
  qed
qed

lemma replace_fewer_lt:
  assumes "sublist m a" and "0x3C \<in> set m" and "sign_then_inert r"
  shows "lt_count (js_replace a m r) < lt_count a"
proof -
  from index_of_sublist [OF assms(1)] obtain pos where "index_of m a = Some pos" by auto
  from js_replace_found [OF this] assms(3) obtain pre post where
    d: "a = pre @ m @ post" "js_replace a m r = pre @ r @ post"
    using inert_sign_chars by blast
  have "lt_count r = 0"
    using assms(3) inert_sign_chars [of r] by (auto simp add: lt_count_def filter_empty_conv)
  moreover have "0 < lt_count m"
    using assms(2) by (auto simp add: lt_count_def filter_empty_conv)
  moreover have "lt_count (js_replace a m r) = lt_count pre + lt_count r + lt_count post"
    unfolding d(2) by (simp add: lt_count_def)
  moreover have "lt_count a = lt_count pre + lt_count m + lt_count post"
    by (subst d(1)) (simp add: lt_count_def)
  ultimately show ?thesis by simp
qed

lemma mention_loop_ends:
  fixes f :: "jsstring \<Rightarrow> nat"
  assumes step: "\<And>a m. I a \<Longrightarrow> exec a = Some m \<Longrightarrow>
      \<exists>r. formatted (snd m) = Inr r \<and> I (js_replace a (fst m) r)
         \<and> f (js_replace a (fst m) r) < f a"
    and "I a0"
  shows "\<exists>b. mention_loop exec formatted a0 = Some (Inr b) \<and> I b \<and> exec b = None"
  using assms(2)
proof (induction "f a0" arbitrary: a0 rule: less_induct)
  case less
  show ?case
  proof (cases "exec a0")
    case None
    then have "mention_loop exec formatted a0 = Some (Inr a0)"
      by (subst mention_loop.simps) simp
    with None less.prems show ?thesis by blast
  next
    case (Some m)
    from step [OF less.prems Some] obtain r where
      r: "formatted (snd m) = Inr r" "I (js_replace a0 (fst m) r)"
        "f (js_replace a0 (fst m) r) < f a0"
      by blast
    from less.hyps [OF r(3) r(2)] obtain b where
      b: "mention_loop exec formatted (js_replace a0 (fst m) r) = Some (Inr b)" "I b" "exec b = None"
      by blast
    have "mention_loop exec formatted a0 = mention_loop exec formatted (js_replace a0 (fst m) r)"
      by (subst mention_loop.simps) (simp add: Some r(1))
    with b show ?thesis by auto
  qed
qed

lemma mention_has_lt_char: "lit \<in> set openers \<Longrightarrow> 0x3C \<in> set (mention lit i)"
  by (auto simp add: openers_def mention_def js_def)

lemma user_exec_SomeD:
  assumes "userMentionMatcher_exec a = Some m"
  shows "sublist (fst m) a \<and> 0x3C \<in> set (fst m)"
proof -
  obtain m0 i where m: "m = (m0, i)" by (cases m)
  from assms obtain t where t: "suffix t a" "userMention_at t = Some (m0, i)"
    unfolding userMentionMatcher_exec_def m by (blast dest: regex_exec_SomeD)
  then have "prefix m0 t" "m0 = mention (js ''<@!'') i \<or> m0 = mention (js ''<@'') i"
    by (auto simp add: userMention_at_iff)
  then show ?thesis
    using t(1) mention_has_lt_char [of "js ''<@!''" i] mention_has_lt_char [of "js ''<@''" i]
    by (auto simp add: m sublist_altdef' openers_def)
qed

lemma lit_exec_SomeD:
  assumes "regex_exec (match_lit_id_gt lit) a = Some m" and "lit \<in> set openers"
  shows "sublist (fst m) a \<and> 0x3C \<in> set (fst m)"
proof -
  obtain m0 i where m: "m = (m0, i)" by (cases m)
  from assms(1) obtain t where t: "suffix t a" "match_lit_id_gt lit t = Some (m0, i)"
    unfolding m by (blast dest: regex_exec_SomeD)
  then have "prefix m0 t" "m0 = mention lit i"
    by (auto simp add: match_mention_iff)
  then show ?thesis
    using t(1) mention_has_lt_char [OF assms(2), of i]
    by (auto simp add: m sublist_altdef')
qed

lemma channel_exec_eq: "channelMentionMatcher_exec = regex_exec (match_lit_id_gt (js ''<#''))"
proof -
  have "channelMention_at = match_lit_id_gt (js ''<#'')"
    by (rule ext) (simp add: channelMention_at_def)
  then show ?thesis by (simp only: channelMentionMatcher_exec_def)
qed

lemma role_exec_eq: "roleMentionMatcher_exec = regex_exec (match_lit_id_gt (js ''<@&''))"
proof -
  have "roleMention_at = match_lit_id_gt (js ''<@&'')"
    by (rule ext) (simp add: roleMention_at_def)
  then show ?thesis by (simp only: roleMentionMatcher_exec_def)
qed

lemma user_free_kept:
  assumes "sign_then_inert r" and "userMentionMatcher_exec a = None"
  shows "userMentionMatcher_exec (js_replace a m r) = None"
  using assms replace_keeps_free [of r "js ''<@''" a m] replace_keeps_free [of r "js ''<@!''" a m]
  by (simp add: user_exec_None_iff openers_def)

lemma channel_free_kept:
  assumes "sign_then_inert r" and "channelMentionMatcher_exec a = None"
  shows "channelMentionMatcher_exec (js_replace a m r) = None"
  using assms replace_keeps_free [of r "js ''<#''" a m]
  by (simp add: channel_exec_None_iff openers_def)

lemma role_free_kept:
  assumes "sign_then_inert r" and "roleMentionMatcher_exec a = None"
  shows "roleMentionMatcher_exec (js_replace a m r) = None"
  using assms replace_keeps_free [of r "js ''<@&''" a m]
  by (simp add: role_exec_None_iff openers_def)

lemma sign_then_inert_at: "inert n \<Longrightarrow> sign_then_inert (js ''@'' @ n)"
  by (simp add: sign_then_inert_def js_def)

lemma sign_then_inert_hash: "inert n \<Longrightarrow> sign_then_inert (js ''#'' @ n)"
  by (simp add: sign_then_inert_def js_def)

lemma deleted_inert:
  "sign_then_inert (js ''@deleted-user'')" "sign_then_inert (js ''#deleted-channel'')"
  "sign_then_inert (js ''@deleted-role'')"
  by (simp_all add: sign_then_inert_def inert_def js_def is_digit_def)

lemma zwsp_inert:
  "sign_then_inert (js ''@'' @ [ZWSP] @ js ''everyone'')"
  "sign_then_inert (js ''@'' @ [ZWSP] @ js ''here'')"
  by (simp_all add: sign_then_inert_def inert_def js_def is_digit_def ZWSP_def)

lemma coll_get_in: "coll_get c k = Some v \<Longrightarrow> (k, v) \<in> set c"
  by (simp add: coll_get_def map_of_SomeD)

lemma user_formatted_inert:
  assumes "channel_guild (msg p) = Some g" and "inert_names g"
  shows "\<exists>r. user_formatted p i = Inr r \<and> sign_then_inert r"
proof (cases "coll_get (members g) i")
  case None
  then show ?thesis using assms(1) by (simp add: user_formatted_def deleted_inert)
next
  case (Some m)
  then have "inert (nick_or_username m)"
    using assms(2) coll_get_in [OF Some] by (auto simp add: inert_names_def list_all_iff)
  then show ?thesis using assms(1) Some by (simp add: user_formatted_def sign_then_inert_at)
qed

lemma channel_formatted_inert:
  assumes "channel_guild (msg p) = Some g" and "inert_names g"
  shows "\<exists>r. channel_formatted p i = Inr r \<and> sign_then_inert r"
proof (cases "coll_get (channels g) i")
  case None
  then show ?thesis using assms(1) by (simp add: channel_formatted_def deleted_inert)
next
  case (Some c)
  then have "inert (channel_name c)"
    using assms(2) coll_get_in [OF Some] by (auto simp add: inert_names_def list_all_iff)
  then show ?thesis using assms(1) Some by (simp add: channel_formatted_def sign_then_inert_hash)
qed

lemma role_formatted_inert:
  assumes "channel_guild (msg p) = Some g" and "inert_names g"
  shows "\<exists>r. role_formatted p i = Inr r \<and> sign_then_inert r"
proof (cases "coll_get (roles g) i")
  case None
  then show ?thesis using assms(1) by (simp add: role_formatted_def deleted_inert)
next
  case (Some c)
  then have "inert (role_name c)"
    using assms(2) coll_get_in [OF Some] by (auto simp add: inert_names_def list_all_iff)
  then show ?thesis using assms(1) Some by (simp add: role_formatted_def sign_then_inert_at)
qed

lemma user_loop_ends:
  assumes "channel_guild (msg p) = Some g" and "inert_names g"
  shows "\<exists>b. mention_loop userMentionMatcher_exec (user_formatted p) a = Some (Inr b)
           \<and> userMentionMatcher_exec b = None"
proof -
  have "\<exists>b. mention_loop userMentionMatcher_exec (user_formatted p) a = Some (Inr b)
           \<and> True \<and> userMentionMatcher_exec b = None"
  proof (rule mention_loop_ends [where f = lt_count and I = "\<lambda>a. True"])
    fix a m
    assume e: "userMentionMatcher_exec a = Some m"
    from user_formatted_inert [OF assms, of "snd m"] obtain r where
      r: "user_formatted p (snd m) = Inr r" "sign_then_inert r" by blast
    have "lt_count (js_replace a (fst m) r) < lt_count a"
      using user_exec_SomeD [OF e] r(2) by (intro replace_fewer_lt) simp_all
    with r show "\<exists>r. user_formatted p (snd m) = Inr r \<and> True
        \<and> lt_count (js_replace a (fst m) r) < lt_count a" by blast
  qed simp
  then show ?thesis by simp
qed

lemma channel_loop_ends:
  assumes "channel_guild (msg p) = Some g" and "inert_names g"
    and "userMentionMatcher_exec a = None"
  shows "\<exists>b. mention_loop channelMentionMatcher_exec (channel_formatted p) a = Some (Inr b)
           \<and> userMentionMatcher_exec b = None \<and> channelMentionMatcher_exec b = None"
proof (rule mention_loop_ends [where f = lt_count and I = "\<lambda>a. userMentionMatcher_exec a = None"])
  fix a m
  assume i: "userMentionMatcher_exec a = None" and e: "channelMentionMatcher_exec a = Some m"
  from channel_formatted_inert [OF assms(1,2), of "snd m"] obtain r where
    r: "channel_formatted p (snd m) = Inr r" "sign_then_inert r" by blast
  have "sublist (fst m) a \<and> 0x3C \<in> set (fst m)"
    using e unfolding channel_exec_eq by (rule lit_exec_SomeD) (simp add: openers_def)
  then have "lt_count (js_replace a (fst m) r) < lt_count a"
    using r(2) by (intro replace_fewer_lt) simp_all
  moreover have "userMentionMatcher_exec (js_replace a (fst m) r) = None"
    using r(2) i by (rule user_free_kept)
  ultimately show "\<exists>r. channel_formatted p (snd m) = Inr r
      \<and> userMentionMatcher_exec (js_replace a (fst m) r) = None
      \<and> lt_count (js_replace a (fst m) r) < lt_count a"
    using r(1) by blast
qed (rule assms(3))

lemma role_loop_ends:
  assumes "channel_guild (msg p) = Some g" and "inert_names g"
    and "userMentionMatcher_exec a = None \<and> channelMentionMatcher_exec a = None"
  shows "\<exists>b. mention_loop roleMentionMatcher_exec (role_formatted p) a = Some (Inr b)
           \<and> (userMentionMatcher_exec b = None \<and> channelMentionMatcher_exec b = None)
           \<and> roleMentionMatcher_exec b = None"
proof (rule mention_loop_ends [where f = lt_count
      and I = "\<lambda>a. userMentionMatcher_exec a = None \<and> channelMentionMatcher_exec a = None"])
  fix a m
  assume i: "userMentionMatcher_exec a = None \<and> channelMentionMatcher_exec a = None"
    and e: "roleMentionMatcher_exec a = Some m"
  from role_formatted_inert [OF assms(1,2), of "snd m"] obtain r where
    r: "role_formatted p (snd m) = Inr r" "sign_then_inert r" by blast
  have "sublist (fst m) a \<and> 0x3C \<in> set (fst m)"
    using e unfolding role_exec_eq by (rule lit_exec_SomeD) (simp add: openers_def)
  then have "lt_count (js_replace a (fst m) r) < lt_count a"
    using r(2) by (intro replace_fewer_lt) simp_all
  moreover have "userMentionMatcher_exec (js_replace a (fst m) r) = None"
    "channelMentionMatcher_exec (js_replace a (fst m) r) = None"
    using r(2) i user_free_kept channel_free_kept by blast+
  ultimately show "\<exists>r. role_formatted p (snd m) = Inr r
      \<and> (userMentionMatcher_exec (js_replace a (fst m) r) = None
         \<and> channelMentionMatcher_exec (js_replace a (fst m) r) = None)
      \<and> lt_count (js_replace a (fst m) r) < lt_count a"
    using r(1) by blast
qed (rule assms(3))

lemma clean_mentions_ends:
  assumes "channel_guild (msg p) = Some g" and "inert_names g"
  shows "\<exists>b. clean_mentions p a = Some (Inr b) \<and> userMentionMatcher_exec b = None
           \<and> channelMentionMatcher_exec b = None \<and> roleMentionMatcher_exec b = None"
proof -
  from user_loop_ends [OF assms, of a] obtain a1 where
    a1: "mention_loop userMentionMatcher_exec (user_formatted p) a = Some (Inr a1)"
      "userMentionMatcher_exec a1 = None" by blast
  from channel_loop_ends [OF assms a1(2)] obtain a2 where
    a2: "mention_loop channelMentionMatcher_exec (channel_formatted p) a1 = Some (Inr a2)"
      "userMentionMatcher_exec a2 = None \<and> channelMentionMatcher_exec a2 = None" by blast
  from role_loop_ends [OF assms a2(2)] obtain a3 where
    a3: "mention_loop roleMentionMatcher_exec (role_formatted p) a2 = Some (Inr a3)"
      "userMentionMatcher_exec a3 = None \<and> channelMentionMatcher_exec a3 = None"
      "roleMentionMatcher_exec a3 = None" by blast
  have "clean_mentions p a = Some (Inr a3)"
    by (simp add: clean_mentions_def and_then_def a1(1) a2(1) a3(1))
  with a3 show ?thesis by blast
qed

lemma user_formatted_direct:
  assumes "channel_guild (msg p) = None"
    and "list_all (\<lambda>kv. inert (username (snd kv))) (users (bot' p))"
  shows "\<exists>r. user_formatted p i = Inr r \<and> sign_then_inert r"
proof (cases "coll_get (users (bot' p)) i")
  case None
  then show ?thesis using assms(1) by (simp add: user_formatted_def deleted_inert)
next
  case (Some u)
  then have "inert (username u)"
    using assms(2) coll_get_in [OF Some] by (auto simp add: list_all_iff)
  then show ?thesis using assms(1) Some by (simp add: user_formatted_def sign_then_inert_at)
qed

lemma user_loop_keeps:
  assumes fmt: "\<And>i. \<exists>r. user_formatted p i = Inr r \<and> sign_then_inert r"
    and "channelMentionMatcher_exec a = None" and "roleMentionMatcher_exec a = None"
  shows "\<exists>b. mention_loop userMentionMatcher_exec (user_formatted p) a = Some (Inr b)
           \<and> (channelMentionMatcher_exec b = None \<and> roleMentionMatcher_exec b = None)
           \<and> userMentionMatcher_exec b = None"
proof (rule mention_loop_ends [where f = lt_count
      and I = "\<lambda>a. channelMentionMatcher_exec a = None \<and> roleMentionMatcher_exec a = None"])
  fix a m
  assume i: "channelMentionMatcher_exec a = None \<and> roleMentionMatcher_exec a = None"
    and e: "userMentionMatcher_exec a = Some m"
  from fmt [of "snd m"] obtain r where
    r: "user_formatted p (snd m) = Inr r" "sign_then_inert r" by blast
  have "lt_count (js_replace a (fst m) r) < lt_count a"
    using user_exec_SomeD [OF e] r(2) by (intro replace_fewer_lt) simp_all
  moreover have "channelMentionMatcher_exec (js_replace a (fst m) r) = None"
    "roleMentionMatcher_exec (js_replace a (fst m) r) = None"
    using r(2) i channel_free_kept role_free_kept by blast+
  ultimately show "\<exists>r. user_formatted p (snd m) = Inr r
      \<and> (channelMentionMatcher_exec (js_replace a (fst m) r) = None
         \<and> roleMentionMatcher_exec (js_replace a (fst m) r) = None)
      \<and> lt_count (js_replace a (fst m) r) < lt_count a"
    using r(1) by blast
qed (simp add: assms(2,3))

lemma mention_loop_no_match: "exec a = None \<Longrightarrow> mention_loop exec formatted a = Some (Inr a)"
  by (subst mention_loop.simps) simp

lemma clean_mentions_ends_direct:
  assumes "channel_guild (msg p) = None"
    and "list_all (\<lambda>kv. inert (username (snd kv))) (users (bot' p))"
    and "channelMentionMatcher_exec a = None" and "roleMentionMatcher_exec a = None"
  shows "\<exists>b. clean_mentions p a = Some (Inr b) \<and> userMentionMatcher_exec b = None
           \<and> channelMentionMatcher_exec b = None \<and> roleMentionMatcher_exec b = None"
proof -
  from user_loop_keeps [OF user_formatted_direct [OF assms(1,2)] assms(3,4)] obtain a1 where
    a1: "mention_loop userMentionMatcher_exec (user_formatted p) a = Some (Inr a1)"
      "channelMentionMatcher_exec a1 = None" "roleMentionMatcher_exec a1 = None"
      "userMentionMatcher_exec a1 = None" by blast
  have "clean_mentions p a = Some (Inr a1)"
    by (simp add: clean_mentions_def and_then_def a1 mention_loop_no_match)
  with a1 show ?thesis by blast
qed

text \<open>
  A sufficient condition under which the loops do what they attempt. Let the parser be
  cleanable for the consumed string: the message belongs to a guild in which every name
  the loops can substitute (each member's nickname or else username, each channel name,
  each role name) is inert; or it belongs to no guild, every username of the client's
  users is inert and the string holds no channel and no role mention. Then for every such
  non-empty consumed string \<open>cleanContent\<close> returns a string: the loops end, each
  replacement taking one \<open><\<close> out of the string; and none of the three mention patterns
  matches the result. The condition is not a necessary one.
\<close>

lemma cleanContent_leaves_no_mention:
  assumes "cleanable p s" and "fst (consume consumeRest p) = Some s" and "s \<noteq> []"
  shows "\<exists>r. fst (cleanContent consumeRest p) = Some (Inr (Some r))
           \<and> userMentionMatcher_exec r = None
           \<and> channelMentionMatcher_exec r = None
           \<and> roleMentionMatcher_exec r = None"
proof -
  obtain a p' where c: "consume consumeRest p = (a, p')" by (cases "consume consumeRest p")
  with assms have a: "a = Some s" by simp
  from c have "p' = p\<lparr>args := if consumeRest then [] else drop 1 (args p)\<rparr>"
    using consumed_parser [of consumeRest p] by simp
  then have cm: "clean_mentions p' = clean_mentions p"
    by (simp only: clean_mentions_args)
  have "\<exists>b. clean_mentions p s = Some (Inr b) \<and> userMentionMatcher_exec b = None
           \<and> channelMentionMatcher_exec b = None \<and> roleMentionMatcher_exec b = None"
  proof (cases "channel_guild (msg p)")
    case None
    with assms(1) show ?thesis
      by (intro clean_mentions_ends_direct) (simp_all add: cleanable_def)
  next
    case (Some g)
    with assms(1) show ?thesis
      by (intro clean_mentions_ends [of p g]) (simp_all add: cleanable_def)
  qed
  then obtain b where
    b: "clean_mentions p s = Some (Inr b)" "userMentionMatcher_exec b = None"
      "channelMentionMatcher_exec b = None" "roleMentionMatcher_exec b = None" by blast
  have r: "fst (cleanContent consumeRest p) = Some (Inr (Some (clean_everyone_here b)))"
    using assms(3) by (simp add: cleanContent_def c a falsy_def and_then_def cm b(1))
  have "userMentionMatcher_exec (clean_everyone_here b) = None"
    unfolding clean_everyone_here_def
    by (intro user_free_kept zwsp_inert b(2))
  moreover have "channelMentionMatcher_exec (clean_everyone_here b) = None"
    unfolding clean_everyone_here_def
    by (intro channel_free_kept zwsp_inert b(3))
  moreover have "roleMentionMatcher_exec (clean_everyone_here b) = None"
    unfolding clean_everyone_here_def
    by (intro role_free_kept zwsp_inert b(4))
  ultimately show ?thesis using r by blast
qed

lemma cleanContent_leaves_no_mention_example:
  "fst (cleanContent True (new_ArgParser guild_message
          [js ''hi'', js ''<@123456789012345678>'', js ''<#222222222222222222>'',
           js ''<@&333333333333333333>'', js ''<@!999999999999999999>'']))
     = Some (Inr (Some (js ''hi @JJ #general @Admin @deleted-user'')))
   \<and> userMentionMatcher_exec (js ''hi @JJ #general @Admin @deleted-user'') = None
   \<and> channelMentionMatcher_exec (js ''hi @JJ #general @Admin @deleted-user'') = None
   \<and> roleMentionMatcher_exec (js ''hi @JJ #general @Admin @deleted-user'') = None
   \<and> fst (cleanContent False (new_ArgParser small_direct_message [js ''<@123456789012345678>!'']))
     = Some (Inr (Some (js ''@Jane!'')))
   \<and> userMentionMatcher_exec (js ''@Jane!'') = None
   \<and> channelMentionMatcher_exec (js ''@Jane!'') = None
   \<and> roleMentionMatcher_exec (js ''@Jane!'') = None"
proof -
  let ?s = "js ''hi <@123456789012345678> <#222222222222222222> <@&333333333333333333> <@!999999999999999999>''"
  let ?p = "new_ArgParser guild_message
          [js ''hi'', js ''<@123456789012345678>'', js ''<#222222222222222222>'',
           js ''<@&333333333333333333>'', js ''<@!999999999999999999>'']"
  let ?q = "new_ArgParser small_direct_message [js ''<@123456789012345678>!'']"
  have "inert_names example_guild"
    by (simp add: inert_names_def example_guild_def inert_def nick_or_username_def general_def
        admin_def js_def is_digit_def)
  then have g1: "cleanable ?p ?s"
    by (simp add: cleanable_def new_ArgParser_def guild_message_def)
  have g2: "fst (consume True ?p) = Some ?s"
    by (simp add: consume_rest new_ArgParser_def js_join_def js_def)
  have g3: "?s \<noteq> []" by (simp add: js_def)
  have gv: "fst (cleanContent True ?p) = Some (Inr (Some (js ''hi @JJ #general @Admin @deleted-user'')))"
    by code_simp
  have "channelMentionMatcher_exec (js ''<@123456789012345678>!'') = None"
    "roleMentionMatcher_exec (js ''<@123456789012345678>!'') = None"
    by code_simp+
  then have d1: "cleanable ?q (js ''<@123456789012345678>!'')"
    by (simp add: cleanable_def new_ArgParser_def small_direct_message_def small_client_def
        jane_def inert_def js_def is_digit_def)
  have d2: "fst (consume False ?q) = Some (js ''<@123456789012345678>!'')"
    by (simp add: consume_one new_ArgParser_def)
  have d3: "js ''<@123456789012345678>!'' \<noteq> []" by (simp add: js_def)
  have dv: "fst (cleanContent False ?q) = Some (Inr (Some (js ''@Jane!'')))"
    by code_simp
  from cleanContent_leaves_no_mention [OF g1 g2 g3] cleanContent_leaves_no_mention [OF d1 d2 d3]
    gv dv
  show ?thesis by auto
qed

lemma at_signs_exec:
  "userMentionMatcher_exec (at_signs n) = Some (js ''<@123456789012345678>'', js ''123456789012345678'')"
proof -
  have here: "userMention_at (js ''<@123456789012345678>'') = Some (js ''<@123456789012345678>'', js ''123456789012345678'')"
    by code_simp
  have "regex_exec userMention_at (replicate n 0x40 @ js ''<@123456789012345678>'')
      = regex_exec userMention_at (js ''<@123456789012345678>'')"
  proof (rule regex_exec_skip)
    fix u :: jsstring
    assume u: "u \<noteq> []" "suffix u (replicate n 0x40)"
    then have "hd u \<in> set (replicate n 0x40)" by (rule suffix_hd_in_set [rotated])
    then have "hd u = 0x40" by simp
    then have "\<not> prefix (js ''<@!'') (u @ js ''<@123456789012345678>'')"
      "\<not> prefix (js ''<@'') (u @ js ''<@123456789012345678>'')"
      using u(1) by (simp_all add: hd_not_prefix js_def)
    then show "userMention_at (u @ js ''<@123456789012345678>'') = None"
      by (simp add: userMention_at_None_iff match_needs_prefix)
  qed
  then show ?thesis
    using here by (simp add: regex_exec_hit userMentionMatcher_exec_def at_signs_def)
qed

lemma at_signs_index: "index_of (js ''<@123456789012345678>'') (at_signs n) = Some n"
proof (induction n)
  case 0
  then show ?case by (simp add: at_signs_def js_def)
next
  case (Suc n)
  have "\<not> prefix (js ''<@123456789012345678>'') (0x40 # at_signs n)"
    by (simp add: js_def)
  moreover have "at_signs (Suc n) = 0x40 # at_signs n" by (simp add: at_signs_def)
  ultimately show ?case using Suc by simp
qed

lemma at_signs_replace:
  "js_replace (at_signs n) (js ''<@123456789012345678>'') (js ''@'' @ js ''<@123456789012345678>'')
     = at_signs (Suc n)"
proof -
  have d: "0x24 \<notin> set (js ''@'' @ js ''<@123456789012345678>'')" by (simp add: js_def)
  have "take n (at_signs n) = replicate n 0x40" by (simp add: at_signs_def)
  moreover have "drop (n + length (js ''<@123456789012345678>'')) (at_signs n) = []"
    by (simp add: at_signs_def)
  moreover have "replicate n 0x40 @ js ''@'' @ js ''<@123456789012345678>'' = at_signs (Suc n)"
    by (simp add: at_signs_def js_def replicate_append_same)
  ultimately show ?thesis
    by (simp add: js_replace_def at_signs_index get_substitution_plain [OF d] Let_def)
qed

lemma echo_formatted:
  "user_formatted (new_ArgParser echo_message x) (js ''123456789012345678'')
     = Inr (js ''@'' @ js ''<@123456789012345678>'')"
  by (simp add: user_formatted_def new_ArgParser_def echo_message_def echo_guild_def coll_get_def
      nick_or_username_def js_def)

lemma echo_loop_never_returns:
  "mention_loop userMentionMatcher_exec (user_formatted (new_ArgParser echo_message x)) (at_signs n) = None"
proof (rule ccontr)
  let ?F = "user_formatted (new_ArgParser echo_message x)"
  assume "mention_loop userMentionMatcher_exec ?F (at_signs n) \<noteq> None"
  then obtain y where y: "mention_loop userMentionMatcher_exec ?F (at_signs n) = Some y"
    by auto
  have "userMentionMatcher_exec = userMentionMatcher_exec \<longrightarrow> ?F = ?F
      \<longrightarrow> (\<forall>k. at_signs n \<noteq> at_signs k)"
  proof (rule mention_loop.raw_induct
      [where P = "\<lambda>e f a r. e = userMentionMatcher_exec \<longrightarrow> f = ?F \<longrightarrow> (\<forall>k. a \<noteq> at_signs k)",
        OF _ y])
    fix loop :: "(jsstring \<Rightarrow> (jsstring \<times> jsstring) option) \<Rightarrow> (jsstring \<Rightarrow> js_error + jsstring) \<Rightarrow>
      jsstring \<Rightarrow> (js_error + jsstring) option"
    fix exec formatted a r
    assume ih: "\<And>e f b z. loop e f b = Some z \<Longrightarrow>
        e = userMentionMatcher_exec \<longrightarrow> f = ?F \<longrightarrow> (\<forall>k. b \<noteq> at_signs k)"
      and body: "(case exec a of
          None \<Rightarrow> Some (Inr a)
        | Some m \<Rightarrow>
            (case formatted (snd m) of
               Inl e \<Rightarrow> Some (Inl e)
             | Inr r \<Rightarrow> loop exec formatted (js_replace a (fst m) r))) = Some r"
    show "exec = userMentionMatcher_exec \<longrightarrow> formatted = ?F \<longrightarrow> (\<forall>k. a \<noteq> at_signs k)"
    proof (intro impI allI notI)
      fix k
      assume e: "exec = userMentionMatcher_exec" and f: "formatted = ?F" and a: "a = at_signs k"
      from body have "loop userMentionMatcher_exec ?F (at_signs (Suc k)) = Some r"
        unfolding e f a by (simp add: at_signs_exec echo_formatted at_signs_replace)
      from ih [OF this] show False by blast
    qed
  qed
  then show False by blast
qed

text \<open>
  C3. The loops put a directory name into the string as it is, and nothing keeps a name
  from bringing mention syntax back. In the guild above:
  the call on \<open><@123456789012345678>\<close> never returns, since the member's nickname is that
  very mention and the user loop finds it again at every turn;
  the call on \<open><<@&333333333333333333>>\<close> returns \<open><@222222222222222222>\<close>, a user mention
  put together from the role's name and the text around the role mention;
  the call on \<open><<@&444444444444444444>123456789012345678>\<close> returns a string that starts
  with a user mention, because \<open>replace\<close> reads \<open>$'\<close> in the role's name as the text after
  the match.
  The docstring promises the arguments with cleaned mentions.
\<close>

theorem cleanContent_mention_comes_back:
  "fst (cleanContent False (new_ArgParser echo_message [js ''<@123456789012345678>''])) = None
   \<and> fst (cleanContent False (new_ArgParser echo_message [js ''<<@&333333333333333333>>'']))
       = Some (Inr (Some (js ''<@222222222222222222>'')))
   \<and> userMentionMatcher_exec (js ''<@222222222222222222>'')
       = Some (js ''<@222222222222222222>'', js ''222222222222222222'')
   \<and> fst (cleanContent False
         (new_ArgParser echo_message [js ''<<@&444444444444444444>123456789012345678>'']))
       = Some (Inr (Some (js ''<@123456789012345678>123456789012345678>'')))
   \<and> userMentionMatcher_exec (js ''<@123456789012345678>123456789012345678>'')
       = Some (js ''<@123456789012345678>'', js ''123456789012345678'')"
proof (intro conjI)
  have "mention_loop userMentionMatcher_exec (user_formatted (new_ArgParser echo_message []))
      (at_signs 0) = None"
    by (rule echo_loop_never_returns)
  then show "fst (cleanContent False (new_ArgParser echo_message [js ''<@123456789012345678>''])) = None"
    by (simp add: cleanContent_def consume_one new_ArgParser_def falsy_def clean_mentions_def
        and_then_def at_signs_def js_def)
qed code_simp+

end
